theory Spec2Isabelle
  imports Complex_Main "HOL-Library.Sublist"
begin

section \<open>Text\<close>

text \<open>
  Python text is modelled as \<^typ>\<open>string\<close>; a \<^typ>\<open>char\<close> is read as a code point below
  256. The substring test \<^verbatim>\<open>a in b\<close> is \<^term>\<open>sublist a b\<close>, \<^verbatim>\<open>b.startswith(a)\<close> is
  \<^term>\<open>prefix a b\<close>.
\<close>

definition code_point :: "char \<Rightarrow> nat" where
  "code_point c = of_char c"

definition is_digit :: "char \<Rightarrow> bool" where
  "is_digit c = (48 \<le> code_point c \<and> code_point c \<le> 57)"

definition is_upper_ascii :: "char \<Rightarrow> bool" where
  "is_upper_ascii c = (65 \<le> code_point c \<and> code_point c \<le> 90)"

definition is_lower_ascii :: "char \<Rightarrow> bool" where
  "is_lower_ascii c = (97 \<le> code_point c \<and> code_point c \<le> 122)"

definition is_ascii :: "char \<Rightarrow> bool" where
  "is_ascii c = (code_point c < 128)"

text \<open>
  \<^verbatim>\<open>str.isspace\<close>, which is also the class \<^verbatim>\<open>\s\<close> of a text pattern: tab to carriage
  return, the separators 28 to 31, the space, and below 256 also 133 and 160.
\<close>

definition is_space :: "char \<Rightarrow> bool" where
  "is_space c = (let n = code_point c in
     (9 \<le> n \<and> n \<le> 13) \<or> (28 \<le> n \<and> n \<le> 32) \<or> n = 133 \<or> n = 160)"

text \<open>
  \<^verbatim>\<open>str.lower\<close> below 256: the letters A to Z, and the upper-case letters 192 to 222
  except the multiplication sign 215, move up by 32.
\<close>

definition lower_char :: "char \<Rightarrow> char" where
  "lower_char c = (let n = code_point c in
     if is_upper_ascii c \<or> (192 \<le> n \<and> n \<le> 222 \<and> n \<noteq> 215) then char_of (n + 32) else c)"

definition lower :: "string \<Rightarrow> string" where
  "lower s = map lower_char s"

text \<open>\<^verbatim>\<open>s.strip()\<close> and \<^verbatim>\<open>s.strip(chars)\<close>.\<close>

definition strip_where :: "(char \<Rightarrow> bool) \<Rightarrow> string \<Rightarrow> string" where
  "strip_where p s = rev (dropWhile p (rev (dropWhile p s)))"

definition strip :: "string \<Rightarrow> string" where
  "strip s = strip_where is_space s"

definition strip_chars :: "string \<Rightarrow> string \<Rightarrow> string" where
  "strip_chars chars s = strip_where (\<lambda>c. c \<in> set chars) s"

text \<open>
  \<^verbatim>\<open>s.split(sep)\<close> for a separator of one character, the only kind the program uses:
  the pieces between the separators, empty pieces included, never an empty list.
\<close>

fun split_char :: "char \<Rightarrow> string \<Rightarrow> string list" where
  "split_char sep [] = [[]]"
| "split_char sep (c # cs) =
     (if c = sep then [] # split_char sep cs
      else (case split_char sep cs of
              [] \<Rightarrow> [[c]]
            | p # ps \<Rightarrow> (c # p) # ps))"

text \<open>
  \<^verbatim>\<open>s.replace(old, new)\<close>: the occurrences of \<^verbatim>\<open>old\<close> from the left, without overlap.
  With an empty \<^verbatim>\<open>old\<close> Python puts \<^verbatim>\<open>new\<close> around every character.
\<close>

function replace_go :: "string \<Rightarrow> string \<Rightarrow> string \<Rightarrow> string" where
  "replace_go old new [] = []"
| "replace_go old new (c # cs) =
     (if old \<noteq> [] \<and> prefix old (c # cs)
      then new @ replace_go old new (drop (length old) (c # cs))
      else c # replace_go old new cs)"
  by pat_completeness auto
termination
  by (relation "measure (\<lambda>(old, new, s). length s)") (auto simp: neq_Nil_conv)

definition replace :: "string \<Rightarrow> string \<Rightarrow> string \<Rightarrow> string" where
  "replace old new s =
     (if old = [] then new @ concat (map (\<lambda>c. c # new) s) else replace_go old new s)"

section \<open>Numbers read from text\<close>

text \<open>
  \<^verbatim>\<open>int(s)\<close> on text (CPython 3.11): white space around is dropped, one sign is allowed,
  then decimal digits, with single underscores between digits. \<^const>\<open>None\<close> is the
  \<^verbatim>\<open>ValueError\<close>. The white space of \<^verbatim>\<open>int\<close> is narrower than that of \<^verbatim>\<open>str.strip\<close>: tab
  to carriage return, the space, and 133 and 160, but not the separators 28 to 31. Below
  256 only 0 to 9 are decimal digits. A text with more than 4300 digits, the default
  limit of the interpreter, is refused.
\<close>

definition is_int_space :: "char \<Rightarrow> bool" where
  "is_int_space c = (let n = code_point c in
     (9 \<le> n \<and> n \<le> 13) \<or> n = 32 \<or> n = 133 \<or> n = 160)"

definition max_str_digits :: int where
  "max_str_digits = 4300"

definition digit_val :: "char \<Rightarrow> int" where
  "digit_val c = int (code_point c) - 48"

definition digits_value :: "string \<Rightarrow> int" where
  "digits_value ds = foldl (\<lambda>acc c. 10 * acc + digit_val c) 0 ds"

fun digit_groups_ok :: "string \<Rightarrow> bool" where
  "digit_groups_ok [] = False"
| "digit_groups_ok [c] = is_digit c"
| "digit_groups_ok (c # d # cs) =
     (if is_digit c then
        (if d = CHR ''_'' then digit_groups_ok cs else digit_groups_ok (d # cs))
      else False)"

definition unsigned_int :: "string \<Rightarrow> int option" where
  "unsigned_int s =
     (if digit_groups_ok s \<and> int (length (filter is_digit s)) \<le> max_str_digits
      then Some (digits_value (filter (\<lambda>c. c \<noteq> CHR ''_'') s)) else None)"

definition py_int :: "string \<Rightarrow> int option" where
  "py_int s =
     (case strip_where is_int_space s of
        [] \<Rightarrow> None
      | c # cs \<Rightarrow>
          if c = CHR ''-'' then map_option uminus (unsigned_int cs)
          else if c = CHR ''+'' then unsigned_int cs
          else unsigned_int (c # cs))"

section \<open>Durations\<close>

text \<open>
  \<^verbatim>\<open>parse_iso8601_duration\<close>. Every exception inside the \<^verbatim>\<open>try\<close> (a failed \<^verbatim>\<open>int\<close>)
  gives \<^const>\<open>None\<close>, as does the empty text. \<^verbatim>\<open>parts[1]\<close> exists whenever the letter
  occurs; the model keeps the index error as a branch all the same.
\<close>

definition take_unit :: "char \<Rightarrow> string \<Rightarrow> (int \<times> string) option" where
  "take_unit u s =
     (if sublist [u] s then
        (case split_char u s of
           p0 # p1 # _ \<Rightarrow> (case py_int p0 of None \<Rightarrow> None | Some n \<Rightarrow> Some (n, p1))
         | _ \<Rightarrow> None)
      else Some (0, s))"

definition parse_iso8601_duration :: "string \<Rightarrow> int option" where
  "parse_iso8601_duration duration_str =
     (if duration_str = [] then None
      else
        (case take_unit CHR ''H'' (replace ''PT'' [] duration_str) of
           None \<Rightarrow> None
         | Some (h, s1) \<Rightarrow>
             (case take_unit CHR ''M'' s1 of
                None \<Rightarrow> None
              | Some (m, s2) \<Rightarrow>
                  (if sublist ''S'' s2 then
                     (case py_int (replace ''S'' [] s2) of
                        None \<Rightarrow> None
                      | Some sec \<Rightarrow> Some (h * 3600 + m * 60 + sec))
                   else Some (h * 3600 + m * 60 + 0)))))"

text \<open>
  The duration read from the page (\<^verbatim>\<open>extract_video_metadata_hybrid\<close>, the block under
  "Extract duration from DOM if still missing"): \<^verbatim>\<open>prev\<close> is \<^verbatim>\<open>duration_seconds\<close> before
  the block, which runs only when that is \<^verbatim>\<open>None\<close> or 0. A text starting with \<^verbatim>\<open>PT\<close> goes
  to \<^const>\<open>parse_iso8601_duration\<close>; otherwise it is split at the colons, and two or three
  parts are minutes and seconds or hours, minutes and seconds. An exception, or another
  number of parts, leaves \<^verbatim>\<open>duration_seconds\<close> as it was.
\<close>

definition duration_from_dom :: "int option \<Rightarrow> string option \<Rightarrow> int option" where
  "duration_from_dom prev duration_text_dom =
     (if prev \<noteq> None \<and> prev \<noteq> Some 0 then prev
      else
        (case duration_text_dom of
           None \<Rightarrow> prev
         | Some txt \<Rightarrow>
             if txt = [] then prev
             else if prefix ''PT'' txt then parse_iso8601_duration txt
             else
               (case split_char CHR '':'' txt of
                  [a, b] \<Rightarrow>
                    (case (py_int a, py_int b) of
                       (Some x, Some y) \<Rightarrow> Some (x * 60 + y)
                     | _ \<Rightarrow> prev)
                | [a, b, c] \<Rightarrow>
                    (case (py_int a, py_int b, py_int c) of
                       (Some x, Some y, Some z) \<Rightarrow> Some (x * 3600 + y * 60 + z)
                     | _ \<Rightarrow> prev)
                | _ \<Rightarrow> prev)))"

section \<open>Counts\<close>

text \<open>
  Python's \<^verbatim>\<open>float\<close> is the binary64 format. The values met here are never negative, so
  a float is a rational that binary64 represents, or infinity. \<^verbatim>\<open>float(s)\<close> and the
  product of two floats are correctly rounded: the nearest representable value, a tie
  going to the even significand of 53 bits, with exponents from -1074 (the subnormal
  range) up, and infinity from \<open>2 ^ 1024\<close> on. A significand is at most \<open>2 ^ 53\<close>, so
  below the exponent 971 the value is under \<open>2 ^ 1024\<close> and the comparison is skipped.
\<close>

datatype pyfloat = Finite rat | Infinity

function bit_length :: "int \<Rightarrow> int" where
  "bit_length n = (if n \<le> 0 then 0 else 1 + bit_length (n div 2))"
  by pat_completeness auto
termination
  by (relation "measure nat") auto

definition pow2 :: "int \<Rightarrow> rat" where
  "pow2 e = (if 0 \<le> e then 2 ^ nat e else 1 / 2 ^ nat (- e))"

definition round_half_even :: "rat \<Rightarrow> int" where
  "round_half_even q =
     (let f = \<lfloor>q\<rfloor>; r = q - of_int f
      in if r < 1 / 2 then f
         else if 1 / 2 < r then f + 1
         else if even f then f else f + 1)"

definition floor_log2 :: "rat \<Rightarrow> int" where
  "floor_log2 q =
     (let (n, d) = quotient_of q;
          k = bit_length n - bit_length d
      in if pow2 k \<le> q then k else k - 1)"

definition round_binary64 :: "rat \<Rightarrow> pyfloat" where
  "round_binary64 q =
     (if q \<le> 0 then Finite 0
      else
        (let e = max (floor_log2 q - 52) (- 1074);
             v = of_int (round_half_even (q / pow2 e)) * pow2 e
         in if 971 \<le> e then (if pow2 1024 \<le> v then Infinity else Finite v)
            else Finite v))"

definition float_mul :: "pyfloat \<Rightarrow> pyfloat \<Rightarrow> pyfloat" where
  "float_mul a b =
     (case (a, b) of
        (Finite x, Finite y) \<Rightarrow> round_binary64 (x * y)
      | _ \<Rightarrow> Infinity)"

text \<open>\<^verbatim>\<open>int(x)\<close> of a float cuts towards zero; on infinity it raises \<^verbatim>\<open>OverflowError\<close>.\<close>

definition int_of_float :: "pyfloat \<Rightarrow> int option" where
  "int_of_float x =
     (case x of
        Finite q \<Rightarrow> Some (if 0 \<le> q then \<lfloor>q\<rfloor> else \<lceil>q\<rceil>)
      | Infinity \<Rightarrow> None)"

text \<open>
  \<^verbatim>\<open>float(s)\<close> for a text of digits and dots, which is all the pattern of
  \<^verbatim>\<open>parse_count_text_to_int\<close> captures in its first group: digits with at most one dot and
  at least one digit; anything else is a \<^verbatim>\<open>ValueError\<close>, here \<^const>\<open>None\<close>.
\<close>

definition float_of_decimal :: "string \<Rightarrow> pyfloat option" where
  "float_of_decimal s =
     (case split_char CHR ''.'' s of
        [ip] \<Rightarrow>
          (if ip \<noteq> [] \<and> list_all is_digit ip
           then Some (round_binary64 (of_int (digits_value ip))) else None)
      | [ip, fp] \<Rightarrow>
          (if ip @ fp \<noteq> [] \<and> list_all is_digit (ip @ fp)
           then Some (round_binary64 (of_int (digits_value (ip @ fp)) / 10 ^ length fp))
           else None)
      | _ \<Rightarrow> None)"

text \<open>
  The search for \<^verbatim>\<open>([\d\.]+)\s*(k|m|b)?\<close>: the leftmost digit or dot starts the match,
  the first group is the longest run of digits and dots from there, white space is
  skipped, and the second group is the next character when that is k, m or b.
\<close>

definition is_num_char :: "char \<Rightarrow> bool" where
  "is_num_char c = (is_digit c \<or> c = CHR ''.'')"

definition search_count :: "string \<Rightarrow> (string \<times> char option) option" where
  "search_count t =
     (case dropWhile (\<lambda>c. \<not> is_num_char c) t of
        [] \<Rightarrow> None
      | r \<Rightarrow>
          Some (takeWhile is_num_char r,
                (case dropWhile is_space (dropWhile is_num_char r) of
                   [] \<Rightarrow> None
                 | c # _ \<Rightarrow> if c \<in> set ''kmb'' then Some c else None)))"

text \<open>
  \<^verbatim>\<open>parse_count_text_to_int\<close>. The argument is \<^verbatim>\<open>Optional[str]\<close>; every exception inside
  the \<^verbatim>\<open>try\<close> gives \<^const>\<open>None\<close>.
\<close>

definition parse_count_text_to_int :: "string option \<Rightarrow> int option" where
  "parse_count_text_to_int text =
     (case text of
        None \<Rightarrow> None
      | Some txt \<Rightarrow>
          if txt = [] then None
          else
            (let t = filter is_ascii (replace '','' [] (strip (lower txt)))
             in case search_count t of
                  None \<Rightarrow>
                    (let d = filter is_digit t in if d = [] then None else py_int d)
                | Some (g1, suf) \<Rightarrow>
                    (case float_of_decimal g1 of
                       None \<Rightarrow> None
                     | Some num \<Rightarrow>
                         if suf = Some CHR ''k'' then int_of_float (float_mul num (Finite 1000))
                         else if suf = Some CHR ''m'' then int_of_float (float_mul num (Finite 1000000))
                         else if suf = Some CHR ''b'' then int_of_float (float_mul num (Finite 1000000000))
                         else int_of_float num)))"

section \<open>Exceptions\<close>

text \<open>An exception, with the name of its class.\<close>

datatype exn = Exception string

section \<open>Records and the dataset\<close>

text \<open>
  Values of the dictionaries the program builds: \<^verbatim>\<open>None\<close>, truth values, integers,
  text, lists and nested dictionaries (association lists, in key order).
\<close>

datatype pyval =
    PNone
  | PBool bool
  | PInt int
  | PStr string
  | PList "pyval list"
  | PDict "(string \<times> pyval) list"

text \<open>
  A record handed to \<^verbatim>\<open>save_dataset\<close> is read there only through \<^verbatim>\<open>it.get("id")\<close> and
  \<^verbatim>\<open>it.get("video_id")\<close>. Identifiers in this program are \<^verbatim>\<open>Optional[str]\<close> (the result
  of \<^verbatim>\<open>extract_video_id\<close>), so the two entries are text or \<^const>\<open>None\<close>, which stands for
  a missing key as well as for \<^verbatim>\<open>None\<close>; the other entries are carried along.
\<close>

record item =
  item_id :: "string option"
  item_video_id :: "string option"
  item_rest :: "(string \<times> pyval) list"

text \<open>\<^verbatim>\<open>it.get("id") or it.get("video_id")\<close>: the first when it is a non-empty text.\<close>

definition item_key :: "item \<Rightarrow> string option" where
  "item_key it =
     (case item_id it of
        None \<Rightarrow> item_video_id it
      | Some s \<Rightarrow> if s = [] then item_video_id it else Some s)"

text \<open>
  The loop of \<^verbatim>\<open>save_dataset\<close> over \<^verbatim>\<open>items\<close>: the result is \<^verbatim>\<open>new_items\<close> and the
  global \<^verbatim>\<open>SAVED_IDS\<close> after the loop. A record whose key is \<^verbatim>\<open>None\<close> or empty is kept
  and leaves the set alone.
\<close>

fun dedupe :: "item list \<Rightarrow> string set \<Rightarrow> item list \<times> string set" where
  "dedupe [] saved = ([], saved)"
| "dedupe (it # its) saved =
     (case item_key it of
        None \<Rightarrow> (case dedupe its saved of (new_items, saved') \<Rightarrow> (it # new_items, saved'))
      | Some vid \<Rightarrow>
          if vid = [] then
            (case dedupe its saved of (new_items, saved') \<Rightarrow> (it # new_items, saved'))
          else if vid \<in> saved then dedupe its saved
          else
            (case dedupe its (insert vid saved) of
               (new_items, saved') \<Rightarrow> (it # new_items, saved')))"

text \<open>
  \<^verbatim>\<open>save_dataset\<close>: the first component is what goes on to the sink, the dataset in
  chunks of 100 or, when that fails, the local file; nothing goes there when it is empty.
\<close>

definition save_dataset :: "item list \<Rightarrow> string set \<Rightarrow> item list \<times> string set" where
  "save_dataset items saved = (if items = [] then ([], saved) else dedupe items saved)"

text \<open>A run: the calls of \<^verbatim>\<open>save_dataset\<close> in order, and everything they forwarded.\<close>

fun run_saves :: "item list list \<Rightarrow> string set \<Rightarrow> item list \<times> string set" where
  "run_saves [] saved = ([], saved)"
| "run_saves (items # calls) saved =
     (case save_dataset items saved of
        (new_items, saved') \<Rightarrow>
          (case run_saves calls saved' of (later, saved'') \<Rightarrow> (new_items @ later, saved'')))"

definition forwarded_with :: "string \<Rightarrow> item list \<Rightarrow> nat" where
  "forwarded_with k rs = length (filter (\<lambda>r. item_key r = Some k) rs)"

definition idless :: "item \<Rightarrow> bool" where
  "idless it = (item_id it = None \<and> item_video_id it = None)"

section \<open>URLs\<close>

text \<open>
  \<^verbatim>\<open>urllib.parse.urlparse\<close> of the standard library (CPython 3.11), as far as the program
  reads its result. Leading control characters and spaces are dropped and tab, carriage
  return and line feed are removed; a scheme is letters, digits, \<^verbatim>\<open>+\<close>, \<^verbatim>\<open>-\<close> and \<^verbatim>\<open>.\<close>
  before the first colon, starting with a letter; after \<^verbatim>\<open>//\<close> the network location runs to
  the first \<^verbatim>\<open>/\<close>, \<^verbatim>\<open>?\<close> or \<^verbatim>\<open>#\<close>; the fragment starts at the first \<^verbatim>\<open>#\<close>, the query at the
  first \<^verbatim>\<open>?\<close> before it; the parameters of the last path segment start at its first \<^verbatim>\<open>;\<close>.
  \<^const>\<open>None\<close> is the \<^verbatim>\<open>ValueError\<close>: for a network location with one square bracket but not
  the other, and for one with both whose text between the brackets is neither an IPv6
  literal nor an address of a future version. The last check of \<^verbatim>\<open>urlsplit\<close>, on a network
  location with characters beyond ASCII, looks for \<^verbatim>\<open>/\<close>, \<^verbatim>\<open>?\<close>, \<^verbatim>\<open>#\<close>, \<^verbatim>\<open>@\<close> or \<^verbatim>\<open>:\<close> in its
  NFKC form; no character below 256 has one of them in its NFKC form, so the check
  never raises on the text modelled here.
\<close>

record url_parts =
  scheme :: string
  netloc :: string
  path :: string
  params :: string
  query :: string
  fragment :: string

definition is_alpha_ascii :: "char \<Rightarrow> bool" where
  "is_alpha_ascii c = (is_upper_ascii c \<or> is_lower_ascii c)"

definition is_scheme_char :: "char \<Rightarrow> bool" where
  "is_scheme_char c = (is_alpha_ascii c \<or> is_digit c \<or> c \<in> set ''+-.'')"

definition uses_params :: "string list" where
  "uses_params = ['''', ''ftp'', ''hdl'', ''prospero'', ''http'', ''imap'', ''https'', ''shttp'',
     ''rtsp'', ''rtspu'', ''sip'', ''sips'', ''mms'', ''sftp'', ''tel'']"

text \<open>\<^verbatim>\<open>s.split(c, 1)\<close> when \<open>c\<close> occurs in \<open>s\<close>: the text before the first \<open>c\<close> and the text after it.\<close>

definition before_first :: "char \<Rightarrow> string \<Rightarrow> string" where
  "before_first c s = takeWhile (\<lambda>x. x \<noteq> c) s"

definition after_first :: "char \<Rightarrow> string \<Rightarrow> string" where
  "after_first c s = drop 1 (dropWhile (\<lambda>x. x \<noteq> c) s)"

definition split_scheme :: "string \<Rightarrow> string \<times> string" where
  "split_scheme url =
     (let pre = before_first CHR '':'' url
      in if CHR '':'' \<in> set url \<and> pre \<noteq> [] \<and> is_alpha_ascii (hd pre) \<and> list_all is_scheme_char pre
         then (lower pre, after_first CHR '':'' url)
         else ([], url))"

definition is_netloc_end :: "char \<Rightarrow> bool" where
  "is_netloc_end c = (c \<in> set ''/?#'')"

definition split_netloc :: "string \<Rightarrow> string \<times> string" where
  "split_netloc url =
     (if prefix ''//'' url
      then (takeWhile (\<lambda>c. \<not> is_netloc_end c) (drop 2 url),
            dropWhile (\<lambda>c. \<not> is_netloc_end c) (drop 2 url))
      else ([], url))"

definition split_params :: "string \<Rightarrow> string \<times> string" where
  "split_params p =
     (let last_segment = rev (takeWhile (\<lambda>c. c \<noteq> CHR ''/'') (rev p));
          front = take (length p - length last_segment) p
      in if CHR '';'' \<in> set last_segment
         then (front @ before_first CHR '';'' last_segment, after_first CHR '';'' last_segment)
         else (p, []))"

text \<open>
  \<^verbatim>\<open>ipaddress.IPv4Address\<close> on text: four octets between dots, each of one to three
  decimal digits without a leading zero and at most 255.
\<close>

definition octet_ok :: "string \<Rightarrow> bool" where
  "octet_ok s =
     (s \<noteq> [] \<and> list_all is_digit s \<and> length s \<le> 3
      \<and> (s = ''0'' \<or> \<not> prefix ''0'' s) \<and> digits_value s \<le> 255)"

definition ipv4_ok :: "string \<Rightarrow> bool" where
  "ipv4_ok s =
     (case split_char CHR ''.'' s of
        [a, b, c, d] \<Rightarrow> octet_ok a \<and> octet_ok b \<and> octet_ok c \<and> octet_ok d
      | _ \<Rightarrow> False)"

definition is_hex_digit :: "char \<Rightarrow> bool" where
  "is_hex_digit c =
     (let n = code_point c
      in is_digit c \<or> (65 \<le> n \<and> n \<le> 70) \<or> (97 \<le> n \<and> n \<le> 102))"

definition hextet_ok :: "string \<Rightarrow> bool" where
  "hextet_ok s = (s \<noteq> [] \<and> list_all is_hex_digit s \<and> length s \<le> 4)"

text \<open>
  \<^verbatim>\<open>ipaddress.IPv6Address\<close> on text. A scope follows the first \<^verbatim>\<open>%\<close> and is then neither
  empty nor holds another \<^verbatim>\<open>%\<close>. The address has three to nine parts between colons; a
  last part with a dot is an IPv4 address and counts as two parts. An empty part that is
  neither first nor last marks the one place where zeros are left out: the parts before
  it are then none, when the first part is empty, or all non-empty, likewise the parts
  after it, and fewer than eight remain. Without such a place there are exactly eight
  parts. Every part that remains is one to four hexadecimal digits.
\<close>

definition ipv6_parts_ok :: "string list \<Rightarrow> bool" where
  "ipv6_parts_ok parts =
     (let n = length parts;
          inner = filter (\<lambda>i. parts ! i = []) [1 ..< n - 1]
      in n \<le> 9
         \<and> (case inner of
               [] \<Rightarrow> n = 8 \<and> list_all hextet_ok parts
             | [skip] \<Rightarrow>
                 (let hi = (if hd parts = [] then drop 1 (take skip parts) else take skip parts);
                      lo = (if last parts = [] then butlast (drop (Suc skip) parts)
                            else drop (Suc skip) parts)
                  in (if hd parts = [] then hi = [] else True)
                     \<and> (if last parts = [] then lo = [] else True)
                     \<and> length hi + length lo < 8
                     \<and> list_all hextet_ok hi \<and> list_all hextet_ok lo)
             | _ \<Rightarrow> False))"

definition ipv6_ok :: "string \<Rightarrow> bool" where
  "ipv6_ok s =
     (let addr = before_first CHR ''%'' s;
          scope = after_first CHR ''%'' s;
          parts = split_char CHR '':'' addr
      in CHR ''/'' \<notin> set s
         \<and> (if CHR ''%'' \<in> set s then scope \<noteq> [] \<and> CHR ''%'' \<notin> set scope else True)
         \<and> addr \<noteq> []
         \<and> 3 \<le> length parts
         \<and> (if CHR ''.'' \<in> set (last parts)
              then ipv4_ok (last parts) \<and> ipv6_parts_ok (butlast parts @ [''0'', ''0''])
              else ipv6_parts_ok parts))"

text \<open>
  The check of \<^verbatim>\<open>urlsplit\<close> on the text between the brackets: after a \<^verbatim>\<open>v\<close> it must match
  \<^verbatim>\<open>v[a-fA-F0-9]+\..+\<close>, otherwise it must be an IPv6 address and not an IPv4 address.
\<close>

definition ipvfuture_ok :: "string \<Rightarrow> bool" where
  "ipvfuture_ok s =
     (case s of
        [] \<Rightarrow> False
      | c # r \<Rightarrow>
          c = CHR ''v'' \<and> takeWhile is_hex_digit r \<noteq> []
          \<and> (case dropWhile is_hex_digit r of
                [] \<Rightarrow> False
              | d # rest \<Rightarrow> d = CHR ''.'' \<and> rest \<noteq> [] \<and> CHR 0x0A \<notin> set rest))"

definition bracketed_host_ok :: "string \<Rightarrow> bool" where
  "bracketed_host_ok h =
     (if prefix ''v'' h then ipvfuture_ok h else \<not> ipv4_ok h \<and> ipv6_ok h)"

definition netloc_ok :: "string \<Rightarrow> bool" where
  "netloc_ok loc =
     (if CHR ''['' \<in> set loc \<and> CHR '']'' \<in> set loc
      then bracketed_host_ok (before_first CHR '']'' (after_first CHR ''['' loc))
      else CHR ''['' \<notin> set loc \<and> CHR '']'' \<notin> set loc)"

definition lstrip_c0 :: "string \<Rightarrow> string" where
  "lstrip_c0 s = dropWhile (\<lambda>c. code_point c \<le> 32) s"

definition remove_unsafe :: "string \<Rightarrow> string" where
  "remove_unsafe s = filter (\<lambda>c. c \<notin> set [CHR 0x09, CHR 0x0D, CHR 0x0A]) s"

definition urlparse :: "string \<Rightarrow> url_parts option" where
  "urlparse url0 =
     (let url1 = remove_unsafe (lstrip_c0 url0);
          (sch, url2) = split_scheme url1;
          (loc, url3) = split_netloc url2
      in if \<not> netloc_ok loc then None
         else
           (let url4 = before_first CHR ''#'' url3;
                frag = after_first CHR ''#'' url3;
                p = before_first CHR ''?'' url4;
                q = after_first CHR ''?'' url4;
                (p', par) = (if sch \<in> set uses_params \<and> CHR '';'' \<in> set p
                             then split_params p else (p, []))
            in Some \<lparr>scheme = sch, netloc = loc, path = p', params = par, query = q,
                      fragment = frag\<rparr>))"

text \<open>
  The text modelled here holds code points below 256. Decoding an escaped query can lead
  out of it; a function whose result in Python holds another code point answers
  \<^term>\<open>Beyond\<close>, and the functions that use it pass that on.
\<close>

datatype 'a ranged = Within 'a | Beyond

text \<open>
  \<^verbatim>\<open>urllib.parse.unquote\<close> with its defaults: \<^verbatim>\<open>%\<close> with two hexadecimal digits is a byte,
  any other \<^verbatim>\<open>%\<close> stays; the bytes of each stretch of ASCII text are then decoded as
  UTF-8, a byte that is not part of a well-formed sequence becoming the replacement
  character. A byte below 128 is its character. The two-byte sequences that start with
  \<^verbatim>\<open>C2\<close> or \<^verbatim>\<open>C3\<close> are the code points 128 to 255; every other byte from 128 on belongs to
  a code point beyond 255 or becomes the replacement character, which lies beyond 255 too.
\<close>

definition hex_val :: "char \<Rightarrow> nat option" where
  "hex_val c =
     (let n = code_point c
      in if is_digit c then Some (n - 48)
         else if 65 \<le> n \<and> n \<le> 70 then Some (n - 55)
         else if 97 \<le> n \<and> n \<le> 102 then Some (n - 87)
         else None)"

datatype piece = Lit char | Byte nat

fun escapes :: "string \<Rightarrow> piece list" where
  "escapes (c # h1 # h2 # cs) =
     (if c = CHR ''%'' then
        (case (hex_val h1, hex_val h2) of
           (Some a, Some b) \<Rightarrow> Byte (16 * a + b) # escapes cs
         | _ \<Rightarrow> Lit c # escapes (h1 # h2 # cs))
      else Lit c # escapes (h1 # h2 # cs))"
| "escapes (c # cs) = Lit c # escapes cs"
| "escapes [] = []"

definition ranged_cons :: "char \<Rightarrow> string ranged \<Rightarrow> string ranged" where
  "ranged_cons c w = (case w of Within s \<Rightarrow> Within (c # s) | Beyond \<Rightarrow> Beyond)"

fun decode_utf8 :: "piece list \<Rightarrow> string ranged" where
  "decode_utf8 [] = Within []"
| "decode_utf8 (Lit c # ps) = ranged_cons c (decode_utf8 ps)"
| "decode_utf8 (Byte b # ps) =
     (if b < 128 then ranged_cons (char_of b) (decode_utf8 ps)
      else if b = 194 \<or> b = 195 then
        (case ps of
           Byte b2 # ps' \<Rightarrow>
             if 128 \<le> b2 \<and> b2 \<le> 191
             then ranged_cons (char_of ((b - 192) * 64 + (b2 - 128))) (decode_utf8 ps')
             else Beyond
         | _ \<Rightarrow> Beyond)
      else Beyond)"

definition unquote :: "string \<Rightarrow> string ranged" where
  "unquote s = decode_utf8 (escapes s)"

definition plus_to_space :: "string \<Rightarrow> string" where
  "plus_to_space s = map (\<lambda>c. if c = CHR ''+'' then CHR '' '' else c) s"

text \<open>
  \<^verbatim>\<open>parse_qs(query)\<close> with its defaults, read at the key \<^verbatim>\<open>v\<close>: the pairs are the pieces
  between \<^verbatim>\<open>&\<close>; a piece without \<^verbatim>\<open>=\<close> or with an empty value is left out; name and value
  are decoded. \<^verbatim>\<open>qs["v"][0]\<close> is the value of the first pair whose name is \<^verbatim>\<open>v\<close> (a name
  beyond the text modelled is not \<^verbatim>\<open>v\<close>), and \<^const>\<open>None\<close> here means that \<^verbatim>\<open>v\<close> is not a key.
\<close>

definition parse_pair :: "string \<Rightarrow> (string ranged \<times> string ranged) option" where
  "parse_pair name_value =
     (if CHR ''='' \<in> set name_value \<and> after_first CHR ''='' name_value \<noteq> []
      then Some (unquote (plus_to_space (before_first CHR ''='' name_value)),
                 unquote (plus_to_space (after_first CHR ''='' name_value)))
      else None)"

definition parse_qsl :: "string \<Rightarrow> (string ranged \<times> string ranged) list" where
  "parse_qsl qs = List.map_filter parse_pair (split_char CHR ''&'' qs)"

definition qs_first_v :: "string \<Rightarrow> string ranged option" where
  "qs_first_v qs = map_of (parse_qsl qs) (Within ''v'')"

text \<open>
  The search for \<^verbatim>\<open>/shorts/([A-Za-z0-9_-]{11})\<close>: the leftmost place where \<^verbatim>\<open>/shorts/\<close> is
  followed by eleven characters of the identifier alphabet.
\<close>

definition is_id_char :: "char \<Rightarrow> bool" where
  "is_id_char c = (is_alpha_ascii c \<or> is_digit c \<or> c = CHR ''_'' \<or> c = CHR ''-'')"

definition valid_id :: "string \<Rightarrow> bool" where
  "valid_id v = (length v = 11 \<and> list_all is_id_char v)"

fun search_shorts :: "string \<Rightarrow> string option" where
  "search_shorts [] = None"
| "search_shorts (c # cs) =
     (if prefix ''/shorts/'' (c # cs) \<and> valid_id (take 11 (drop 8 (c # cs)))
      then Some (take 11 (drop 8 (c # cs)))
      else search_shorts cs)"

text \<open>\<^verbatim>\<open>path.strip("/").split("/")[0]\<close>.\<close>

definition first_segment :: "string \<Rightarrow> string" where
  "first_segment p = before_first CHR ''/'' (strip_chars ''/'' p)"

text \<open>
  \<^verbatim>\<open>clean_video_url\<close>. An exception of \<^verbatim>\<open>urlparse\<close> is caught and gives the text before the
  first \<^verbatim>\<open>#\<close>, like the last branch.
\<close>

definition clean_video_url :: "string \<Rightarrow> string ranged" where
  "clean_video_url url =
     (if url = [] then Within url
      else
        (case urlparse url of
           None \<Rightarrow> Within (before_first CHR ''#'' url)
         | Some parsed \<Rightarrow>
             (case search_shorts (path parsed) of
                Some m \<Rightarrow> Within (''https://www.youtube.com/shorts/'' @ m)
              | None \<Rightarrow>
                  if netloc parsed \<noteq> [] \<and> sublist ''youtu.be'' (netloc parsed)
                     \<and> first_segment (path parsed) \<noteq> []
                  then Within (''https://www.youtube.com/watch?v='' @ first_segment (path parsed))
                  else if sublist ''watch'' (path parsed) \<and> query parsed \<noteq> []
                  then (case qs_first_v (query parsed) of
                          Some (Within v) \<Rightarrow> Within (''https://www.youtube.com/watch?v='' @ v)
                        | Some Beyond \<Rightarrow> Beyond
                        | None \<Rightarrow> Within (before_first CHR ''#'' url))
                  else Within (before_first CHR ''#'' url))))"

text \<open>
  \<^verbatim>\<open>extract_video_id\<close>: \<^const>\<open>None\<close> for \<^verbatim>\<open>None\<close>, also after an exception. For a
  \<^verbatim>\<open>youtu.be\<close> link the result is the first path segment, which may be empty.
\<close>

definition extract_video_id :: "string \<Rightarrow> string option ranged" where
  "extract_video_id url =
     (case urlparse url of
        None \<Rightarrow> Within None
      | Some parsed \<Rightarrow>
          if netloc parsed \<noteq> [] \<and> sublist ''youtu.be'' (netloc parsed)
          then Within (Some (first_segment (path parsed)))
          else
            (case (if sublist ''/watch'' (path parsed) \<and> query parsed \<noteq> []
                   then qs_first_v (query parsed) else None) of
               Some (Within v) \<Rightarrow> Within (Some v)
             | Some Beyond \<Rightarrow> Beyond
             | None \<Rightarrow> Within (search_shorts (path parsed))))"


text \<open>The identifier of the canonical form of a link.\<close>

definition extract_canonical :: "string \<Rightarrow> string option ranged" where
  "extract_canonical url =
     (case clean_video_url url of Within u \<Rightarrow> extract_video_id u | Beyond \<Rightarrow> Beyond)"


text \<open>The three surface forms of a link to the item \<open>vid\<close>, with whatever follows.\<close>

definition watch_link :: "string \<Rightarrow> string \<Rightarrow> string" where
  "watch_link vid rest = ''https://www.youtube.com/watch?v='' @ vid @ rest"

definition short_link :: "string \<Rightarrow> string \<Rightarrow> string" where
  "short_link vid rest = ''https://youtu.be/'' @ vid @ rest"

definition shorts_link :: "string \<Rightarrow> string \<Rightarrow> string" where
  "shorts_link vid rest = ''https://www.youtube.com/shorts/'' @ vid @ rest"

text \<open>What may follow: nothing, or something that starts with one of the given characters.\<close>

definition starts_in :: "string \<Rightarrow> string \<Rightarrow> bool" where
  "starts_in chars rest = (case rest of [] \<Rightarrow> True | c # _ \<Rightarrow> c \<in> set chars)"

section \<open>Readiness of a page\<close>

text \<open>
  What \<^verbatim>\<open>is_page_unavailable\<close> reads from the page, each read with the exception it may
  raise instead: the number of \<^verbatim>\<open>ytd-page-not-found-renderer\<close> elements, the rendered text
  of the body, and the markup.
\<close>

record page_state =
  not_found_count :: "exn + nat"
  body_text :: "exn + string"
  content :: "exn + string"

definition unavailable_phrases :: "string list" where
  "unavailable_phrases =
     [''this page isn'' @ [CHR 0x27] @ ''t available'', ''sorry about that'',
      ''channel is not available'']"

definition has_unavailable_phrase :: "string \<Rightarrow> bool" where
  "has_unavailable_phrase lowered = list_ex (\<lambda>p. sublist p lowered) unavailable_phrases"

text \<open>\<^verbatim>\<open>is_page_unavailable\<close>: any exception inside gives \<^verbatim>\<open>False\<close>.\<close>

definition is_page_unavailable :: "page_state \<Rightarrow> bool" where
  "is_page_unavailable ps =
     (case not_found_count ps of
        Inl e \<Rightarrow> False
      | Inr n \<Rightarrow>
          if 0 < n then True
          else
            (case body_text ps of
               Inl e \<Rightarrow> False
             | Inr txt \<Rightarrow>
                 if txt \<noteq> [] \<and> has_unavailable_phrase (lower txt) then True
                 else
                   (case content ps of
                      Inl e \<Rightarrow> False
                    | Inr c \<Rightarrow>
                        sublist ''page not found'' (lower c)
                        \<or> sublist ''channel unavailable'' (lower c))))"

text \<open>
  \<^verbatim>\<open>goto_and_ready\<close> returns \<^verbatim>\<open>None\<close> from every one of its \<^verbatim>\<open>return\<close> statements; the
  outcome below names the statement taken: after an unavailable page was detected,
  after the initial data, a fallback selector or the ready document was found, or, degraded,
  after the keyword scan or at the very end. The page changes while the function runs, so
  what each step sees is given separately: the stop flag after the navigation, the page
  at the first availability check, whether the wait for the initial data succeeds, the
  visibility of each fallback selector, \<^verbatim>\<open>document.readyState\<close> (with the exception of the
  wait before it) and the second look for the initial data, the markup at the keyword
  scan, and the page at the last availability check. A failed navigation and the consent
  handling leave no trace: their exceptions are caught.
\<close>

datatype readiness = Ready | Unavailable | DegradedReady

record nav_page =
  stop_requested :: bool
  early :: page_state
  init_data_wait :: bool
  visible :: "string \<Rightarrow> exn + bool"
  ready_state :: "exn + string"
  has_init :: "exn + bool"
  scan_html :: "exn + string"
  late :: page_state

definition fallback_selectors :: "string list" where
  "fallback_selectors =
     [''ytd-browse'', ''ytd-rich-grid-renderer'', ''ytd-rich-item-renderer'',
      ''#contents ytd-rich-item-renderer'', ''ytd-channel-name'',
      ''#items ytd-grid-video-renderer'', ''ytd-section-list-renderer'',
      ''ytd-reel-shelf-renderer'']"

definition document_ready :: "nav_page \<Rightarrow> bool" where
  "document_ready nv =
     (case ready_state nv of
        Inl e \<Rightarrow> False
      | Inr r \<Rightarrow>
          if lower r \<in> set [''complete'', ''interactive'']
          then (case has_init nv of Inl e \<Rightarrow> False | Inr b \<Rightarrow> b)
          else False)"

definition html_keywords :: "nav_page \<Rightarrow> bool" where
  "html_keywords nv =
     (case scan_html nv of
        Inl e \<Rightarrow> False
      | Inr h \<Rightarrow>
          sublist ''/shorts/'' h \<or> sublist ''watch?v='' h \<or> sublist ''ytd-rich-grid-renderer'' h)"

text \<open>
  With \<^verbatim>\<open>stop_after_attempt(1)\<close> the \<^verbatim>\<open>retry\<close> decorator turns the exception of the
  single attempt into a \<^verbatim>\<open>RetryError\<close>.
\<close>

definition goto_and_ready :: "nav_page \<Rightarrow> exn + readiness" where
  "goto_and_ready nv =
     (if stop_requested nv then Inl (Exception ''RetryError'')
      else if is_page_unavailable (early nv) then Inr Unavailable
      else if init_data_wait nv then Inr Ready
      else if list_ex (\<lambda>sel. visible nv sel = Inr True) fallback_selectors then Inr Ready
      else if document_ready nv then Inr Ready
      else if html_keywords nv then Inr DegradedReady
      else if is_page_unavailable (late nv) then Inr Unavailable
      else Inr DegradedReady)"

text \<open>
  Example pages: an error page of the platform, a state of the page where the element
  count raises, and a navigation to the error page with every other signal present.
\<close>

definition gone_page :: page_state where
  "gone_page =
     \<lparr>not_found_count = Inr 0,
      body_text = Inr (''This page isn'' @ [CHR 0x27] @ ''t available. Sorry about that.''),
      content = Inr ''<html><body>watch?v=</body></html>''\<rparr>"

definition broken_page :: page_state where
  "broken_page = gone_page\<lparr>not_found_count := Inl (Exception ''Error'')\<rparr>"

definition gone_nav :: nav_page where
  "gone_nav =
     \<lparr>stop_requested = False, early = gone_page, init_data_wait = True,
      visible = (\<lambda>sel. Inr True), ready_state = Inr ''complete'', has_init = Inr True,
      scan_html = Inr ''<html><body>watch?v=</body></html>'', late = gone_page\<rparr>"

section \<open>The orchestrator\<close>

text \<open>
  The global \<^verbatim>\<open>STOP_FLAG\<close> is set by a signal handler at any moment. A run reads it at
  fixed places; \<open>stop n\<close> is the value seen by the \<open>n\<close>-th read of the run, and every
  function below takes the number of reads made so far and returns the new one.
\<close>

type_synonym stop_flag = "nat \<Rightarrow> bool"

definition is_channel_url :: "string \<Rightarrow> bool" where
  "is_channel_url url =
     (let u = lower url in sublist ''/@'' u \<or> sublist ''/channel/'' u \<or> sublist ''/c/'' u)"

definition is_video_url :: "string \<Rightarrow> bool" where
  "is_video_url url =
     (let u = lower url in sublist ''watch?v='' u \<or> sublist ''/shorts/'' u \<or> sublist ''youtu.be/'' u)"

text \<open>\<^verbatim>\<open>row and row.get("id")\<close>: the record has a non-empty \<^verbatim>\<open>id\<close>.\<close>

definition has_id :: "item \<Rightarrow> bool" where
  "has_id row = (case item_id row of None \<Rightarrow> False | Some s \<Rightarrow> s \<noteq> [])"

text \<open>\<^verbatim>\<open>xs[:n]\<close>: a negative \<open>n\<close> counts from the end.\<close>

definition py_take :: "int \<Rightarrow> 'a list \<Rightarrow> 'a list" where
  "py_take n xs = (if 0 \<le> n then take (nat n) xs else take (nat (int (length xs) + n)) xs)"

text \<open>
  What the orchestrator calls is given by the pages and the network, so it is a
  parameter: for a channel URL the candidate list \<^verbatim>\<open>all_video_urls\<close> that
  \<^verbatim>\<open>scrape_channel_all_videos\<close> holds when it reaches its extraction loop (empty when it
  returned before), for a URL the outcome of \<^verbatim>\<open>advanced_extract_video\<close>, for a keyword
  the outcome of \<^verbatim>\<open>scrape_search\<close>.
\<close>

record env =
  channel_urls :: "string \<Rightarrow> exn + string list"
  extract_video :: "string \<Rightarrow> exn + item"
  search_rows :: "string \<Rightarrow> exn + item list"

text \<open>
  The extraction loop of \<^verbatim>\<open>scrape_channel_all_videos\<close> over
  \<^verbatim>\<open>all_video_urls[:total_cap]\<close>: it stops at the stop flag, skips a URL whose extraction
  raises, and keeps the rows that have an \<^verbatim>\<open>id\<close>.
\<close>

fun channel_rows :: "stop_flag \<Rightarrow> (string \<Rightarrow> exn + item) \<Rightarrow> string list \<Rightarrow> nat \<Rightarrow> item list \<times> nat" where
  "channel_rows stop extract [] t = ([], t)"
| "channel_rows stop extract (video_url # rest) t =
     (if stop t then ([], Suc t)
      else
        (case extract video_url of
           Inl e \<Rightarrow> channel_rows stop extract rest (Suc t)
         | Inr row \<Rightarrow>
             if has_id row then
               (case channel_rows stop extract rest (Suc t) of
                  (out_rows, t') \<Rightarrow> (row # out_rows, t'))
             else channel_rows stop extract rest (Suc t)))"

definition scrape_channel_all_videos ::
  "stop_flag \<Rightarrow> env \<Rightarrow> int \<Rightarrow> string \<Rightarrow> nat \<Rightarrow> (exn + item list) \<times> nat" where
  "scrape_channel_all_videos stop e max_results channel_url t =
     (case channel_urls e channel_url of
        Inl x \<Rightarrow> (Inl x, t)
      | Inr all_video_urls \<Rightarrow>
          (case channel_rows stop (extract_video e) (py_take max_results all_video_urls) t of
             (out_rows, t') \<Rightarrow> (Inr out_rows, t')))"

text \<open>
  One dispatch of the URL loop of \<^verbatim>\<open>main\<close>: the number added to \<^verbatim>\<open>total_scraped\<close>.
  An exception of the target is caught and logged, and adds nothing.
\<close>

definition dispatch_url :: "stop_flag \<Rightarrow> env \<Rightarrow> int \<Rightarrow> string \<Rightarrow> nat \<Rightarrow> nat \<times> nat" where
  "dispatch_url stop e global_max url t =
     (if is_channel_url url then
        (case scrape_channel_all_videos stop e global_max url t of
           (Inl x, t') \<Rightarrow> (0, t')
         | (Inr results, t') \<Rightarrow> (length results, t'))
      else if is_video_url url then
        (case extract_video e url of
           Inl x \<Rightarrow> (0, t)
         | Inr result \<Rightarrow> (if has_id result then 1 else 0, t))
      else
        (case search_rows e url of
           Inl x \<Rightarrow> (0, t)
         | Inr results \<Rightarrow> (length results, t)))"

definition dispatch_search :: "env \<Rightarrow> string \<Rightarrow> nat" where
  "dispatch_search e kw = (case search_rows e kw of Inl x \<Rightarrow> 0 | Inr results \<Rightarrow> length results)"

text \<open>
  The state of \<^verbatim>\<open>main\<close>: \<^verbatim>\<open>total_scraped\<close>, the reads of the stop flag, and the log, one
  entry for each dispatched target: the total when it was dispatched (the code logs it as
  "total scraped so far") and the number of results the target added.
\<close>

record progress =
  total_scraped :: int
  reads :: nat
  dispatched :: "(int \<times> nat) list"

fun url_loop :: "stop_flag \<Rightarrow> env \<Rightarrow> int \<Rightarrow> string list \<Rightarrow> progress \<Rightarrow> progress" where
  "url_loop stop e global_max [] p = p"
| "url_loop stop e global_max (url # urls) p =
     (if stop (reads p) then p\<lparr>reads := Suc (reads p)\<rparr>
      else if global_max \<le> total_scraped p then p\<lparr>reads := Suc (reads p)\<rparr>
      else
        (case dispatch_url stop e global_max url (Suc (reads p)) of
           (n, t') \<Rightarrow>
             url_loop stop e global_max urls
               \<lparr>total_scraped = total_scraped p + int n, reads = t',
                dispatched = dispatched p @ [(total_scraped p, n)]\<rparr>))"

fun search_loop :: "stop_flag \<Rightarrow> env \<Rightarrow> int \<Rightarrow> string list \<Rightarrow> progress \<Rightarrow> progress" where
  "search_loop stop e global_max [] p = p"
| "search_loop stop e global_max (kw # kws) p =
     (if stop (reads p) then p\<lparr>reads := Suc (reads p)\<rparr>
      else if global_max \<le> total_scraped p then p\<lparr>reads := Suc (reads p)\<rparr>
      else
        search_loop stop e global_max kws
          \<lparr>total_scraped = total_scraped p + int (dispatch_search e kw), reads = Suc (reads p),
           dispatched = dispatched p @ [(total_scraped p, dispatch_search e kw)]\<rparr>)"

text \<open>
  \<^verbatim>\<open>main\<close> from "Global cap on total results" on: \<^verbatim>\<open>global_max\<close> is
  \<^verbatim>\<open>int(input_options.get("maxResults", 50))\<close>, the same number that
  \<^verbatim>\<open>scrape_channel_all_videos\<close> reads as \<^verbatim>\<open>total_cap\<close>.
\<close>

definition main_loops :: "stop_flag \<Rightarrow> env \<Rightarrow> int \<Rightarrow> string list \<Rightarrow> string list \<Rightarrow> progress" where
  "main_loops stop e global_max all_urls search_terms =
     (let p0 = \<lparr>total_scraped = 0, reads = 0, dispatched = []\<rparr>;
          p1 = (if all_urls = [] then p0 else url_loop stop e global_max all_urls p0)
      in if search_terms = [] then p1
         else if stop (reads p1) then p1\<lparr>reads := Suc (reads p1)\<rparr>
         else if total_scraped p1 < global_max
              then search_loop stop e global_max search_terms (p1\<lparr>reads := Suc (reads p1)\<rparr>)
              else p1\<lparr>reads := Suc (reads p1)\<rparr>)"

text \<open>
  What the log of a run records: every target was dispatched below the cap, the total is
  the sum of the results, and it is the total at the last dispatch plus what that target
  added.
\<close>

definition log_ok :: "int \<Rightarrow> progress \<Rightarrow> bool" where
  "log_ok global_max p =
     ((\<forall>(before, n) \<in> set (dispatched p). before < global_max)
      \<and> total_scraped p = (\<Sum>(before, n) \<leftarrow> dispatched p. int n)
      \<and> (dispatched p \<noteq> [] \<longrightarrow>
           total_scraped p = fst (last (dispatched p)) + int (snd (last (dispatched p)))))"

text \<open>
  An example run: the stop flag is never set; the channel \<^verbatim>\<open>@a\<close> lists one video, every
  other channel two; every extraction succeeds with the identifier after \<^verbatim>\<open>v=\<close>; a search
  finds nothing.
\<close>

definition never_stop :: stop_flag where
  "never_stop n = False"

definition example_row :: "string \<Rightarrow> item" where
  "example_row v = \<lparr>item_id = Some v, item_video_id = None, item_rest = []\<rparr>"

definition example_env :: env where
  "example_env =
     \<lparr>channel_urls =
        (\<lambda>u. if u = ''https://www.youtube.com/@a''
              then Inr [''https://www.youtube.com/watch?v=AAAAAAAAAAA'']
              else Inr [''https://www.youtube.com/watch?v=BBBBBBBBBBB'',
                        ''https://www.youtube.com/watch?v=CCCCCCCCCCC'']),
      extract_video = (\<lambda>u. Inr (example_row (drop 32 u))),
      search_rows = (\<lambda>k. Inr [])\<rparr>"

section \<open>Harvesting links\<close>

text \<open>
  \<^verbatim>\<open>collect_urls_from_page\<close>, the helper of \<^verbatim>\<open>scrape_channel_all_videos\<close> for one channel
  tab. What the browser does is given: whether \<^verbatim>\<open>goto_and_ready\<close> returns or raises,
  the page that \<^verbatim>\<open>is_page_unavailable\<close> then reads, the links \<^verbatim>\<open>page.evaluate\<close> returns in each round
  (the empty list when it raises or returns nothing), and whether the scroll and the wait
  that end a round go through (an exception there leaves the function through its outer
  handler, which returns what was collected).
\<close>

record tab_page =
  ready :: "exn + readiness"
  after_ready :: page_state
  hrefs_at :: "nat \<Rightarrow> string list"
  scroll_ok :: "nat \<Rightarrow> bool"

text \<open>
  The state of the loops: \<^verbatim>\<open>collected\<close>, the set \<^verbatim>\<open>links_seen\<close> shared by the tabs of a
  channel, and the reads of the stop flag.
\<close>

type_synonym harvest = "string list \<times> string set \<times> nat"

text \<open>
  The \<^verbatim>\<open>for h in hrefs\<close> loop. A link whose canonical form or identifier lies beyond the
  text modelled puts the whole harvest there.
\<close>

fun scan_hrefs ::
  "stop_flag \<Rightarrow> int \<Rightarrow> string \<Rightarrow> string list \<Rightarrow> harvest \<Rightarrow> harvest ranged" where
  "scan_hrefs stop cap url_pattern [] st = Within st"
| "scan_hrefs stop cap url_pattern (h # hs) (collected, links_seen, t) =
     (if stop t \<or> cap \<le> int (length collected) then Within (collected, links_seen, Suc t)
      else
        (case clean_video_url
                (if prefix ''http'' h then h else ''https://www.youtube.com'' @ h) of
           Beyond \<Rightarrow> Beyond
         | Within full \<Rightarrow>
             (case extract_video_id full of
                Beyond \<Rightarrow> Beyond
              | Within None \<Rightarrow> scan_hrefs stop cap url_pattern hs (collected, links_seen, Suc t)
              | Within (Some vid) \<Rightarrow>
                  if vid = [] then scan_hrefs stop cap url_pattern hs (collected, links_seen, Suc t)
                  else if sublist url_pattern full \<and> full \<notin> links_seen
                  then scan_hrefs stop cap url_pattern hs
                         (collected @ [full], insert full links_seen, Suc t)
                  else scan_hrefs stop cap url_pattern hs (collected, links_seen, Suc t))))"

definition max_rounds :: nat where
  "max_rounds = 60"

text \<open>The \<^verbatim>\<open>while\<close> loop, from the round \<open>rounds\<close> on.\<close>

function collect_loop ::
  "stop_flag \<Rightarrow> tab_page \<Rightarrow> int \<Rightarrow> string \<Rightarrow> nat \<Rightarrow> harvest \<Rightarrow> harvest ranged" where
  "collect_loop stop pg cap url_pattern rounds (collected, links_seen, t) =
     (if int (length collected) < cap \<and> rounds < max_rounds then
        (if stop t then Within (collected, links_seen, Suc t)
         else
           (case scan_hrefs stop cap url_pattern (hrefs_at pg rounds)
                   (collected, links_seen, Suc t) of
              Beyond \<Rightarrow> Beyond
            | Within (collected', links_seen', t') \<Rightarrow>
                if cap \<le> int (length collected') then Within (collected', links_seen', t')
                else if scroll_ok pg rounds
                then collect_loop stop pg cap url_pattern (Suc rounds)
                       (collected', links_seen', t')
                else Within (collected', links_seen', t')))
      else Within (collected, links_seen, t))"
  by pat_completeness auto
termination
  by (relation "measure (\<lambda>(stop, pg, cap, url_pattern, rounds, st). max_rounds - rounds)") auto

declare collect_loop.simps [simp del]

definition collect_urls_from_page ::
  "stop_flag \<Rightarrow> tab_page \<Rightarrow> string \<Rightarrow> int \<Rightarrow> string set \<Rightarrow> nat \<Rightarrow> harvest ranged" where
  "collect_urls_from_page stop pg url_pattern cap links_seen t =
     (if cap \<le> 0 then Within ([], links_seen, t)
      else
        (case ready pg of
           Inl e \<Rightarrow> Within ([], links_seen, t)
         | Inr u \<Rightarrow>
             if is_page_unavailable (after_ready pg) then Within ([], links_seen, t)
             else collect_loop stop pg cap url_pattern 0 ([], links_seen, t)))"

text \<open>
  \<^verbatim>\<open>gather_regular_hrefs\<close>, which \<^verbatim>\<open>scrape_search\<close> calls in every round for the type
  \<^verbatim>\<open>video\<close>. A search page gives, for each round, the title links of its video renderers
  (or the exception of \<^verbatim>\<open>page.evaluate\<close>) and its markup (or the exception of
  \<^verbatim>\<open>page.content\<close>), and tells whether the scroll, or the wait of its handler, raises.
\<close>

record search_page =
  title_links_at :: "nat \<Rightarrow> exn + string list"
  html_at :: "nat \<Rightarrow> exn + string"
  scroll_raises :: "nat \<Rightarrow> exn option"

text \<open>
  The matches of \<^verbatim>\<open>watch\\?v=([A-Za-z0-9_-]{11})\<close> as \<^verbatim>\<open>re.findall\<close> lists them. In this
  raw string the two backslashes are one backslash of the text and the question mark
  makes it optional: \<^verbatim>\<open>watch\<close>, perhaps a backslash, \<^verbatim>\<open>v=\<close> and eleven identifier
  characters. A match is not searched again.
\<close>

definition match_watch :: "string \<Rightarrow> (string \<times> nat) option" where
  "match_watch s =
     (if prefix ''watch'' s then
        (let r = drop 5 s;
             (r', n) = (if prefix [CHR 0x5C] r then (drop 1 r, 6) else (r, 5))
         in if prefix ''v='' r' \<and> valid_id (take 11 (drop 2 r'))
            then Some (take 11 (drop 2 r'), n + 13) else None)
      else None)"

fun findall_watch :: "nat \<Rightarrow> string \<Rightarrow> string list" where
  "findall_watch skip [] = []"
| "findall_watch (Suc skip) (c # cs) = findall_watch skip cs"
| "findall_watch 0 (c # cs) =
     (case match_watch (c # cs) of
        Some (vid, n) \<Rightarrow> vid # findall_watch (n - 1) cs
      | None \<Rightarrow> findall_watch 0 cs)"

text \<open>The last loop of \<^verbatim>\<open>gather_regular_hrefs\<close>: canonicalise, keep the first of equals.\<close>

definition ranged_Cons :: "'a \<Rightarrow> 'a list ranged \<Rightarrow> 'a list ranged" where
  "ranged_Cons x w = (case w of Within xs \<Rightarrow> Within (x # xs) | Beyond \<Rightarrow> Beyond)"

fun canonical_distinct :: "string list \<Rightarrow> string set \<Rightarrow> string list ranged" where
  "canonical_distinct [] seen = Within []"
| "canonical_distinct (h # hs) seen =
     (case clean_video_url h of
        Beyond \<Rightarrow> Beyond
      | Within full \<Rightarrow>
          if full \<notin> seen then ranged_Cons full (canonical_distinct hs (insert full seen))
          else canonical_distinct hs seen)"

definition gather_regular_hrefs :: "search_page \<Rightarrow> nat \<Rightarrow> string list ranged" where
  "gather_regular_hrefs pg n =
     (let hrefs = (case title_links_at pg n of
                     Inl e \<Rightarrow> []
                   | Inr anchors \<Rightarrow> filter (\<lambda>h. h \<noteq> []) anchors);
          hrefs' = (if hrefs = [] then
                      (case html_at pg n of
                         Inl e \<Rightarrow> []
                       | Inr html \<Rightarrow>
                           map (\<lambda>i. ''https://www.youtube.com/watch?v='' @ i) (findall_watch 0 html))
                    else hrefs)
      in canonical_distinct hrefs' {})"

text \<open>
  The branch of \<^verbatim>\<open>scrape_search\<close> for the type \<^verbatim>\<open>video\<close>. \<^verbatim>\<open>collected_urls\<close> and \<^verbatim>\<open>seen\<close>
  are shared by all the types of one search; the cap is compared with the number of
  collected URLs that contain \<^verbatim>\<open>/watch\<close>.
\<close>

definition count_watch :: "string list \<Rightarrow> int" where
  "count_watch collected_urls = int (length (filter (\<lambda>u. sublist ''/watch'' u) collected_urls))"

fun take_unseen :: "stop_flag \<Rightarrow> int \<Rightarrow> string list \<Rightarrow> harvest \<Rightarrow> harvest" where
  "take_unseen stop cap [] st = st"
| "take_unseen stop cap (h # hs) (collected_urls, seen, t) =
     (if stop t \<or> cap \<le> count_watch collected_urls then (collected_urls, seen, Suc t)
      else if h \<notin> seen
      then take_unseen stop cap hs (collected_urls @ [h], insert h seen, Suc t)
      else take_unseen stop cap hs (collected_urls, seen, Suc t))"

definition search_max_rounds :: nat where
  "search_max_rounds = 80"

function video_loop ::
  "stop_flag \<Rightarrow> search_page \<Rightarrow> int \<Rightarrow> nat \<Rightarrow> harvest \<Rightarrow> (exn + harvest) ranged" where
  "video_loop stop pg cap rounds (collected_urls, seen, t) =
     (if count_watch collected_urls < cap \<and> rounds < search_max_rounds then
        (if stop t then Within (Inr (collected_urls, seen, Suc t))
         else
           (case gather_regular_hrefs pg rounds of
              Beyond \<Rightarrow> Beyond
            | Within hrefs \<Rightarrow>
                (case take_unseen stop cap hrefs (collected_urls, seen, Suc t) of
                   (collected_urls', seen', t') \<Rightarrow>
                     if cap \<le> count_watch collected_urls'
                     then Within (Inr (collected_urls', seen', t'))
                     else
                       (case scroll_raises pg rounds of
                          Some e \<Rightarrow> Within (Inl e)
                        | None \<Rightarrow>
                            video_loop stop pg cap (Suc rounds) (collected_urls', seen', t')))))
      else Within (Inr (collected_urls, seen, t)))"
  by pat_completeness auto
termination
  by (relation "measure (\<lambda>(stop, pg, cap, rounds, st). search_max_rounds - rounds)") auto

declare video_loop.simps [simp del]

text \<open>The defensive filter of \<^verbatim>\<open>scrape_search\<close>: the URLs that go on to extraction.\<close>

fun with_video_id :: "string list \<Rightarrow> string list ranged" where
  "with_video_id [] = Within []"
| "with_video_id (u # urls) =
     (case extract_video_id u of
        Beyond \<Rightarrow> Beyond
      | Within None \<Rightarrow> with_video_id urls
      | Within (Some v) \<Rightarrow>
          if v \<noteq> [] then ranged_Cons u (with_video_id urls) else with_video_id urls)"

text \<open>
  An example search page: the three results are two shorts and one video, the same in
  every round; nothing raises.
\<close>

definition example_search_page :: search_page where
  "example_search_page =
     \<lparr>title_links_at =
        (\<lambda>n. Inr [''https://www.youtube.com/shorts/AAAAAAAAAAA'',
                  ''https://www.youtube.com/shorts/BBBBBBBBBBB'',
                  ''https://www.youtube.com/watch?v=CCCCCCCCCCC&pp=ygUDY2F0'']),
      html_at = (\<lambda>n. Inr []),
      scroll_raises = (\<lambda>n. None)\<rparr>"

definition example_tab_page :: tab_page where
  "example_tab_page =
     \<lparr>ready = Inr Ready,
      after_ready =
        \<lparr>not_found_count = Inr 0, body_text = Inr ''Videos'', content = Inr ''<html></html>''\<rparr>,
      hrefs_at =
        (\<lambda>n. [''https://www.youtube.com/shorts/AAAAAAAAAAA'',
               ''/watch?v=CCCCCCCCCCC&pp=ygUDY2F0'',
               ''https://www.youtube.com/watch?v=DDDDDDDDDDD'',
               ''https://www.youtube.com/watch?v=EEEEEEEEEEE'']),
      scroll_ok = (\<lambda>n. True)\<rparr>"

text \<open>
  What a harvest owes its caller, for the set \<open>seen0\<close> it was given: at most \<open>cap\<close> URLs,
  all containing the pattern, each one new when it was taken, none twice, and all
  recorded in the shared set.
\<close>

definition harvest_ok :: "int \<Rightarrow> string \<Rightarrow> string set \<Rightarrow> string list \<times> string set \<Rightarrow> bool" where
  "harvest_ok cap url_pattern seen0 st =
     (case st of
        (collected, links_seen) \<Rightarrow>
          int (length collected) \<le> cap
          \<and> seen0 \<union> set collected \<subseteq> links_seen
          \<and> set collected \<inter> seen0 = {}
          \<and> distinct collected
          \<and> list_all (sublist url_pattern) collected)"

section \<open>Resolving metadata\<close>

text \<open>A metadata dictionary: its entries in the order of the literal that builds it.\<close>

type_synonym meta = "(string \<times> pyval) list"

definition dict_get :: "meta \<Rightarrow> string \<Rightarrow> pyval" where
  "dict_get d k = (case map_of d k of None \<Rightarrow> PNone | Some v \<Rightarrow> v)"











































section \<open>Properties of the parsers\<close>

lemma split_char_not_Nil: "split_char sep s \<noteq> []"
  by (induction s) (simp_all split: list.splits)

lemma in_split_char: "p \<in> set (split_char sep s) \<Longrightarrow> x \<in> set p \<Longrightarrow> x \<in> set s"
proof (induction s arbitrary: p)
  case Nil
  then show ?case by simp
next
  case (Cons c cs)
  show ?case
  proof (cases "c = sep")
    case True
    with Cons show ?thesis by auto
  next
    case False
    obtain q qs where q: "split_char sep cs = q # qs"
      using split_char_not_Nil[of sep cs] by (cases "split_char sep cs") auto
    with False Cons.prems have "p = c # q \<or> p \<in> set qs" by auto
    then show ?thesis
      using Cons.IH[of q] Cons.IH[of p] Cons.prems(2) q by auto
  qed
qed

lemma float_of_decimal_has_digit:
  assumes "float_of_decimal s = Some x"
  shows "\<exists>c\<in>set s. is_digit c"
proof -
  from assms obtain ip fp where ds: "ip @ fp \<noteq> []" "list_all is_digit (ip @ fp)"
    "ip \<in> set (split_char CHR ''.'' s)" "fp = [] \<or> fp \<in> set (split_char CHR ''.'' s)"
    by (fastforce simp: float_of_decimal_def split: list.splits if_splits)
  then obtain c where c: "c \<in> set (ip @ fp)" by (cases "ip @ fp") auto
  with ds have "is_digit c" by (auto simp: list_all_iff)
  moreover from c ds(3,4) have "c \<in> set s" by (auto dest: in_split_char)
  ultimately show ?thesis by blast
qed

lemma lower_char_not_digit: "\<not> is_digit c \<Longrightarrow> \<not> is_digit (lower_char c)"
  by (auto simp: lower_char_def is_digit_def is_upper_ascii_def code_point_def Let_def)

lemma set_strip_where: "set (strip_where p s) \<subseteq> set s"
proof -
  have "set (dropWhile p (rev (dropWhile p s))) \<subseteq> set (dropWhile p s)"
    using set_dropWhileD by fastforce
  moreover have "set (dropWhile p s) \<subseteq> set s"
    using set_dropWhileD by fastforce
  ultimately show ?thesis by (simp add: strip_where_def)
qed

lemma set_replace_go_empty: "set (replace_go old [] s) \<subseteq> set s"
proof (induction old "[] :: string" s rule: replace_go.induct)
  case (1 old)
  then show ?case by simp
next
  case (2 old c cs)
  show ?case
  proof (cases "old \<noteq> [] \<and> prefix old (c # cs)")
    case True
    with 2 have "set (replace_go old [] (c # cs)) \<subseteq> set (drop (length old) (c # cs))" by simp
    also have "\<dots> \<subseteq> set (c # cs)" by (rule set_drop_subset)
    finally show ?thesis .
  next
    case False
    with 2 show ?thesis by auto
  qed
qed

lemma count_text_chars:
  "set (filter is_ascii (replace '','' [] (strip (lower s)))) \<subseteq> lower_char ` set s"
proof -
  have "set (replace '','' [] (strip (lower s))) \<subseteq> set (strip (lower s))"
    using set_replace_go_empty[of "'',''" "strip (lower s)"] by (simp add: replace_def)
  also have "\<dots> \<subseteq> set (lower s)"
    unfolding strip_def by (rule set_strip_where)
  also have "\<dots> = lower_char ` set s" by (simp add: lower_def)
  finally show ?thesis by auto
qed

lemma search_count_group:
  assumes "search_count t = Some (g, suf)"
  shows "set g \<subseteq> set t"
proof -
  from assms have "g = takeWhile is_num_char (dropWhile (\<lambda>c. \<not> is_num_char c) t)"
    by (auto simp: search_count_def split: list.splits)
  then show ?thesis
    by (metis set_dropWhileD set_takeWhileD subsetI)
qed

lemma no_digit_count:
  assumes "\<forall>c\<in>set s. \<not> is_digit c"
  shows "parse_count_text_to_int (Some s) = None"
proof -
  define t where "t = filter is_ascii (replace '','' [] (strip (lower s)))"
  have nd: "\<forall>c\<in>set t. \<not> is_digit c"
    using count_text_chars[of s] assms lower_char_not_digit unfolding t_def by blast
  then have fd: "filter is_digit t = []"
    by (simp add: filter_empty_conv)
  have nf: "float_of_decimal g = None" if "search_count t = Some (g, suf)" for g suf
  proof (rule ccontr)
    assume "float_of_decimal g \<noteq> None"
    then obtain x where "float_of_decimal g = Some x" by auto
    from float_of_decimal_has_digit[OF this] search_count_group[OF that] nd
    show False by blast
  qed
  show ?thesis
  proof (cases "search_count t")
    case None
    with fd show ?thesis
      by (simp add: parse_count_text_to_int_def t_def Let_def)
  next
    case (Some a)
    obtain g suf where a: "a = (g, suf)" by (cases a)
    with Some nf[of g suf] show ?thesis
      by (simp add: parse_count_text_to_int_def t_def Let_def)
  qed
qed

lemma count_example_k: "parse_count_text_to_int (Some ''1.2K'') = Some 1200"
  by code_simp

lemma count_example_m: "parse_count_text_to_int (Some ''3M'') = Some 3000000"
  by code_simp

lemma count_example_comma: "parse_count_text_to_int (Some ''12,345'') = Some 12345"
  by code_simp

text \<open>
  Claim C6. The count parser gives 1200 for "1.2K", 3000000 for "3M" and 12345 for
  "12,345"; for the missing text, the empty text and every text without a decimal digit
  (such as "abc") it gives \<^const>\<open>None\<close>, so never zero.
\<close>

theorem parse_count_text_to_int_spec:
  "parse_count_text_to_int (Some ''1.2K'') = Some 1200
   \<and> parse_count_text_to_int (Some ''3M'') = Some 3000000
   \<and> parse_count_text_to_int (Some ''12,345'') = Some 12345
   \<and> parse_count_text_to_int None = None
   \<and> parse_count_text_to_int (Some []) = None
   \<and> (\<forall>s. (\<forall>c\<in>set s. \<not> is_digit c) \<longrightarrow> parse_count_text_to_int (Some s) = None)"
proof -
  have none: "parse_count_text_to_int None = None"
    by (simp add: parse_count_text_to_int_def)
  have empty: "parse_count_text_to_int (Some []) = None"
    by (simp add: parse_count_text_to_int_def)
  have nondigit: "\<forall>s. (\<forall>c\<in>set s. \<not> is_digit c) \<longrightarrow> parse_count_text_to_int (Some s) = None"
    using no_digit_count by blast
  from count_example_k count_example_m count_example_comma none empty nondigit show ?thesis
    by (intro conjI)
qed

theorem parse_count_text_to_int_spec_witness:
  "\<not> is_digit CHR ''a'' \<and> \<not> is_digit CHR ''b'' \<and> \<not> is_digit CHR ''c''
   \<and> parse_count_text_to_int (Some ''abc'') = None"
proof -
  have h: "\<forall>c\<in>set ''abc''. \<not> is_digit c"
    by (simp add: is_digit_def code_point_def)
  with parse_count_text_to_int_spec show ?thesis by simp
qed

text \<open>
  Claim C7. Durations become whole seconds: the code "PT1H2M3S" is 3723, on both paths
  that read it, and the display texts "10:05" and "1:02:03" are 605 and 3723.
\<close>

theorem duration_normalization_examples:
  "parse_iso8601_duration ''PT1H2M3S'' = Some 3723
   \<and> duration_from_dom None (Some ''PT1H2M3S'') = Some 3723
   \<and> duration_from_dom None (Some ''10:05'') = Some 605
   \<and> duration_from_dom None (Some ''1:02:03'') = Some 3723"
  by code_simp

section \<open>Properties of the dataset filter\<close>
lemma save_dataset_eq: "save_dataset items saved = dedupe items saved"
  by (simp add: save_dataset_def)

lemma dedupe_mono: "saved \<subseteq> snd (dedupe items saved)"
proof (induction items arbitrary: saved)
  case Nil
  then show ?case by simp
next
  case (Cons it its)
  have "saved \<subseteq> snd (dedupe its saved)" by (rule Cons.IH)
  moreover have "saved \<subseteq> snd (dedupe its (insert v saved))" for v
    using Cons.IH[of "insert v saved"] by blast
  ultimately show ?case
    by (auto simp: split_beta split: option.splits)
qed

lemma dedupe_saved:
  "snd (dedupe items saved) = saved \<union> {k. k \<noteq> [] \<and> (\<exists>it\<in>set items. item_key it = Some k)}"
proof (induction items arbitrary: saved)
  case Nil
  then show ?case by simp
next
  case (Cons it its)
  show ?case
    by (cases "item_key it") (auto simp: Cons.IH split_beta)
qed

lemma dedupe_known:
  "k \<in> saved \<Longrightarrow> k \<noteq> [] \<Longrightarrow> forwarded_with k (fst (dedupe items saved)) = 0"
proof (induction items arbitrary: saved)
  case Nil
  then show ?case by (simp add: forwarded_with_def)
next
  case (Cons it its)
  then show ?case
    by (cases "item_key it") (auto simp: forwarded_with_def split_beta)
qed

lemma dedupe_new:
  "k \<notin> saved \<Longrightarrow> k \<noteq> [] \<Longrightarrow>
   forwarded_with k (fst (dedupe items saved)) =
     (if \<exists>it\<in>set items. item_key it = Some k then 1 else 0)"
proof (induction items arbitrary: saved)
  case Nil
  then show ?case by (simp add: forwarded_with_def)
next
  case (Cons it its)
  show ?case
  proof (cases "item_key it = Some k")
    case True
    with Cons.prems dedupe_known[of k "insert k saved" its] show ?thesis
      by (simp add: forwarded_with_def split_beta)
  next
    case False
    with Cons.prems Cons.IH[of saved] Cons.IH[of "insert v saved" for v] show ?thesis
      by (cases "item_key it") (auto simp: forwarded_with_def split_beta)
  qed
qed

lemma run_saves_mono: "saved \<subseteq> snd (run_saves calls saved)"
proof (induction calls arbitrary: saved)
  case Nil
  then show ?case by simp
next
  case (Cons items calls)
  have "saved \<subseteq> snd (dedupe items saved)" by (rule dedupe_mono)
  also have "\<dots> \<subseteq> snd (run_saves calls (snd (dedupe items saved)))" by (rule Cons.IH)
  finally show ?case by (simp add: save_dataset_eq split_beta)
qed

lemma forwarded_with_append:
  "forwarded_with k (xs @ ys) = forwarded_with k xs + forwarded_with k ys"
  by (simp add: forwarded_with_def)

lemma run_saves_known:
  "k \<in> saved \<Longrightarrow> k \<noteq> [] \<Longrightarrow> forwarded_with k (fst (run_saves calls saved)) = 0"
proof (induction calls arbitrary: saved)
  case Nil
  then show ?case by (simp add: forwarded_with_def)
next
  case (Cons items calls)
  from Cons.prems dedupe_mono[of saved items] have "k \<in> snd (dedupe items saved)" by blast
  with Cons show ?case
    by (simp add: save_dataset_eq split_beta forwarded_with_append dedupe_known)
qed

lemma run_saves_at_most_once:
  "k \<noteq> [] \<Longrightarrow> forwarded_with k (fst (run_saves calls saved)) \<le> 1"
proof (induction calls arbitrary: saved)
  case Nil
  then show ?case by (simp add: forwarded_with_def)
next
  case (Cons items calls)
  show ?case
  proof (cases "k \<in> snd (dedupe items saved)")
    case True
    have later: "forwarded_with k (fst (run_saves calls (snd (dedupe items saved)))) = 0"
      using True Cons.prems by (rule run_saves_known)
    have "forwarded_with k (fst (dedupe items saved)) \<le> 1"
      using dedupe_known[of k saved items] dedupe_new[of k saved items] Cons.prems
      by (cases "k \<in> saved") auto
    with later show ?thesis
      by (simp add: save_dataset_eq split_beta forwarded_with_append)
  next
    case False
    then have ns: "k \<notin> saved" using dedupe_mono[of saved items] by blast
    from False have "\<not> (\<exists>it\<in>set items. item_key it = Some k)"
      using Cons.prems by (auto simp: dedupe_saved)
    with ns Cons.prems have "forwarded_with k (fst (dedupe items saved)) = 0"
      by (simp add: dedupe_new)
    with Cons.IH[OF Cons.prems] show ?thesis
      by (simp add: save_dataset_eq split_beta forwarded_with_append)
  qed
qed

lemma idless_key: "idless it \<Longrightarrow> item_key it = None"
  by (simp add: idless_def item_key_def)

lemma dedupe_idless:
  "filter idless (fst (dedupe items saved)) = filter idless items"
proof (induction items arbitrary: saved)
  case Nil
  then show ?case by simp
next
  case (Cons it its)
  show ?case
  proof (cases "idless it")
    case True
    then show ?thesis by (simp add: idless_key Cons.IH split_beta)
  next
    case False
    then show ?thesis
      by (cases "item_key it") (auto simp: Cons.IH split_beta)
  qed
qed

lemma dedupe_all_idless:
  "\<forall>it\<in>set items. idless it \<Longrightarrow> dedupe items saved = (items, saved)"
  by (induction items) (simp_all add: idless_key)

text \<open>
  Claim C1. In a run, at most one record with a given identifier goes on to the sink.
  For every call of \<^verbatim>\<open>save_dataset\<close> and every non-empty identifier \<open>k\<close>: when \<open>k\<close> is
  already in the saved set no record with key \<open>k\<close> is forwarded; when \<open>k\<close> is new and some
  record of the call has it, exactly one such record is forwarded and \<open>k\<close> is in the set
  afterwards; the set after a call, and after any sequence of calls, contains the set
  before; and over any sequence of calls at most one record with key \<open>k\<close> is forwarded.
\<close>

theorem save_dataset_dedup:
  "saved \<subseteq> snd (save_dataset items saved)
   \<and> saved \<subseteq> snd (run_saves calls saved)
   \<and> (k \<noteq> [] \<longrightarrow>
        (k \<in> saved \<longrightarrow> forwarded_with k (fst (save_dataset items saved)) = 0)
      \<and> (k \<notin> saved \<and> (\<exists>it\<in>set items. item_key it = Some k) \<longrightarrow>
           forwarded_with k (fst (save_dataset items saved)) = 1
           \<and> k \<in> snd (save_dataset items saved))
      \<and> forwarded_with k (fst (run_saves calls saved)) \<le> 1)"
proof (intro conjI impI)
  show "saved \<subseteq> snd (save_dataset items saved)"
    by (simp add: save_dataset_eq dedupe_mono)
  show "saved \<subseteq> snd (run_saves calls saved)"
    by (rule run_saves_mono)
next
  assume "k \<noteq> []" "k \<in> saved"
  then show "forwarded_with k (fst (save_dataset items saved)) = 0"
    by (simp add: save_dataset_eq dedupe_known)
next
  assume k: "k \<noteq> []" and new: "k \<notin> saved \<and> (\<exists>it\<in>set items. item_key it = Some k)"
  then show "forwarded_with k (fst (save_dataset items saved)) = 1"
    by (simp add: save_dataset_eq dedupe_new)
  from k new show "k \<in> snd (save_dataset items saved)"
    by (auto simp: save_dataset_eq dedupe_saved)
next
  assume "k \<noteq> []"
  then show "forwarded_with k (fst (run_saves calls saved)) \<le> 1"
    by (rule run_saves_at_most_once)
qed

theorem save_dataset_dedup_witness:
  "''abc'' \<noteq> []
   \<and> ''abc'' \<in> {''abc''}
   \<and> forwarded_with ''abc''
        (fst (save_dataset [\<lparr>item_id = Some ''abc'', item_video_id = None, item_rest = []\<rparr>]
           {''abc''})) = 0
   \<and> ''abc'' \<notin> {}
   \<and> (\<exists>it\<in>set [\<lparr>item_id = Some ''abc'', item_video_id = None, item_rest = []\<rparr>,
                  \<lparr>item_id = None, item_video_id = Some ''abc'', item_rest = []\<rparr>].
         item_key it = Some ''abc'')
   \<and> forwarded_with ''abc''
        (fst (save_dataset [\<lparr>item_id = Some ''abc'', item_video_id = None, item_rest = []\<rparr>,
                            \<lparr>item_id = None, item_video_id = Some ''abc'', item_rest = []\<rparr>]
           {})) = 1
   \<and> forwarded_with ''abc''
        (fst (run_saves [[\<lparr>item_id = Some ''abc'', item_video_id = None, item_rest = []\<rparr>],
                         [\<lparr>item_id = Some ''abc'', item_video_id = None, item_rest = []\<rparr>]]
           {})) \<le> 1"
  using save_dataset_dedup
          [where k = "''abc''" and saved = "{''abc''}"
             and items = "[\<lparr>item_id = Some ''abc'', item_video_id = None, item_rest = []\<rparr>]"]
        save_dataset_dedup
          [where k = "''abc''" and saved = "{}"
             and items = "[\<lparr>item_id = Some ''abc'', item_video_id = None, item_rest = []\<rparr>,
                          \<lparr>item_id = None, item_video_id = Some ''abc'', item_rest = []\<rparr>]"
             and calls = "[[\<lparr>item_id = Some ''abc'', item_video_id = None, item_rest = []\<rparr>],
                          [\<lparr>item_id = Some ''abc'', item_video_id = None, item_rest = []\<rparr>]]"]
  by (simp add: item_key_def)

text \<open>
  Claim C10. A record whose \<^verbatim>\<open>id\<close> and \<^verbatim>\<open>video_id\<close> are both missing or \<^verbatim>\<open>None\<close> is
  always forwarded by \<^verbatim>\<open>save_dataset\<close>: the records of that kind that come out are
  the ones that went in, in order and as often; the saved set gains only the non-empty
  keys of the call, so such a record adds nothing to it; and a call made only of such
  records forwards all of them, repeated ones included, and leaves the set as it was.
\<close>

theorem save_dataset_idless:
  "filter idless (fst (save_dataset items saved)) = filter idless items
   \<and> snd (save_dataset items saved) =
       saved \<union> {k. k \<noteq> [] \<and> (\<exists>it\<in>set items. item_key it = Some k)}
   \<and> ((\<forall>it\<in>set items. idless it) \<longrightarrow> save_dataset items saved = (items, saved))"
  by (simp add: save_dataset_eq dedupe_idless dedupe_saved dedupe_all_idless)

theorem save_dataset_idless_witness:
  "idless \<lparr>item_id = None, item_video_id = None, item_rest = [(''title'', PStr ''a'')]\<rparr>
   \<and> save_dataset
         [\<lparr>item_id = None, item_video_id = None, item_rest = [(''title'', PStr ''a'')]\<rparr>,
          \<lparr>item_id = None, item_video_id = None, item_rest = [(''title'', PStr ''a'')]\<rparr>] {}
       = ([\<lparr>item_id = None, item_video_id = None, item_rest = [(''title'', PStr ''a'')]\<rparr>,
           \<lparr>item_id = None, item_video_id = None, item_rest = [(''title'', PStr ''a'')]\<rparr>], {})"
  using save_dataset_idless
          [where saved = "{}"
             and items = "[\<lparr>item_id = None, item_video_id = None, item_rest = [(''title'', PStr ''a'')]\<rparr>,
                          \<lparr>item_id = None, item_video_id = None, item_rest = [(''title'', PStr ''a'')]\<rparr>]"]
  by (simp add: idless_def)

section \<open>Properties of the orchestrator\<close>

lemma log_ok_reads: "log_ok gm (p\<lparr>reads := t\<rparr>) = log_ok gm p"
  by (simp add: log_ok_def)

lemma log_ok_step:
  assumes "log_ok gm p" "total_scraped p < gm"
  shows "log_ok gm \<lparr>total_scraped = total_scraped p + int n, reads = t,
                    dispatched = dispatched p @ [(total_scraped p, n)]\<rparr>"
  using assms by (auto simp: log_ok_def)

lemma url_loop_log_ok:
  "log_ok gm p \<Longrightarrow> log_ok gm (url_loop stop e gm urls p)"
proof (induction urls arbitrary: p)
  case Nil
  then show ?case by simp
next
  case (Cons url urls)
  show ?case
  proof (cases "stop (reads p) \<or> gm \<le> total_scraped p")
    case True
    with Cons.prems show ?thesis by (auto simp: log_ok_reads)
  next
    case False
    obtain n t' where d: "dispatch_url stop e gm url (Suc (reads p)) = (n, t')"
      by (cases "dispatch_url stop e gm url (Suc (reads p))")
    from False Cons.prems have "log_ok gm \<lparr>total_scraped = total_scraped p + int n, reads = t',
        dispatched = dispatched p @ [(total_scraped p, n)]\<rparr>"
      by (intro log_ok_step) auto
    from Cons.IH[OF this] False d show ?thesis by simp
  qed
qed

lemma search_loop_log_ok:
  "log_ok gm p \<Longrightarrow> log_ok gm (search_loop stop e gm kws p)"
proof (induction kws arbitrary: p)
  case Nil
  then show ?case by simp
next
  case (Cons kw kws)
  show ?case
  proof (cases "stop (reads p) \<or> gm \<le> total_scraped p")
    case True
    with Cons.prems show ?thesis by (auto simp: log_ok_reads)
  next
    case False
    from False Cons.prems have "log_ok gm \<lparr>total_scraped = total_scraped p + int (dispatch_search e kw),
        reads = Suc (reads p),
        dispatched = dispatched p @ [(total_scraped p, dispatch_search e kw)]\<rparr>"
      by (intro log_ok_step) auto
    from Cons.IH[OF this] False show ?thesis by simp
  qed
qed

lemma main_loops_log_ok: "log_ok gm (main_loops stop e gm all_urls search_terms)"
proof -
  define p0 where "p0 = \<lparr>total_scraped = 0, reads = 0, dispatched = []\<rparr>"
  define p1 where "p1 = (if all_urls = [] then p0 else url_loop stop e gm all_urls p0)"
  have "log_ok gm p0"
    by (simp add: log_ok_def p0_def)
  then have p1: "log_ok gm p1"
    by (simp add: p1_def url_loop_log_ok)
  then have "log_ok gm (search_loop stop e gm search_terms (p1\<lparr>reads := Suc (reads p1)\<rparr>))"
    by (intro search_loop_log_ok) (simp add: log_ok_reads)
  with p1 show ?thesis
    unfolding main_loops_def Let_def p0_def[symmetric] p1_def[symmetric]
    by (simp add: log_ok_reads)
qed

lemma channel_rows_length: "length (fst (channel_rows stop ex urls t)) \<le> length urls"
proof (induction urls arbitrary: t)
  case Nil
  then show ?case by simp
next
  case (Cons u us)
  from Cons.IH[of "Suc t"] show ?case
    by (auto simp: split_beta split: sum.splits)
qed

lemma py_take_length: "0 \<le> n \<Longrightarrow> int (length (py_take n xs)) \<le> n"
  by (simp add: py_take_def)

lemma scrape_channel_bound:
  assumes "0 \<le> gm" "scrape_channel_all_videos stop e gm url t = (Inr rows, t')"
  shows "int (length rows) \<le> gm"
proof -
  from assms(2) obtain cand where
    rows: "rows = fst (channel_rows stop (extract_video e) (py_take gm cand) t)"
    by (auto simp: scrape_channel_all_videos_def split_beta split: sum.splits)
  have "length rows \<le> length (py_take gm cand)"
    unfolding rows by (rule channel_rows_length)
  with py_take_length[OF assms(1), of cand] show ?thesis by linarith
qed

text \<open>
  Claim C3, as the code has it. \<^verbatim>\<open>main\<close> dispatches a target only while the running
  total is below the global cap, and the total is the sum of what the dispatched targets
  returned. A channel target returns at most the cap. The final total is therefore below
  the cap plus the number of results of the last dispatched target; it is not bounded by
  the cap itself, since the target in flight is not cut short.
\<close>

theorem main_global_cap_amended:
  "(\<forall>(before, n) \<in> set (dispatched (main_loops stop e gm all_urls search_terms)). before < gm)
   \<and> total_scraped (main_loops stop e gm all_urls search_terms) =
       (\<Sum>(before, n) \<leftarrow> dispatched (main_loops stop e gm all_urls search_terms). int n)
   \<and> (dispatched (main_loops stop e gm all_urls search_terms) \<noteq> [] \<longrightarrow>
        total_scraped (main_loops stop e gm all_urls search_terms) <
          gm + int (snd (last (dispatched (main_loops stop e gm all_urls search_terms)))))
   \<and> (0 \<le> gm \<and> scrape_channel_all_videos stop e gm url t = (Inr rows, t') \<longrightarrow>
        int (length rows) \<le> gm)"
proof -
  let ?p = "main_loops stop e gm all_urls search_terms"
  have ok: "log_ok gm ?p" by (rule main_loops_log_ok)
  have last_lt: "total_scraped ?p < gm + int (snd (last (dispatched ?p)))" if ne: "dispatched ?p \<noteq> []"
  proof -
    from ne have "last (dispatched ?p) \<in> set (dispatched ?p)" by simp
    with ok have "fst (last (dispatched ?p)) < gm"
      by (auto simp: log_ok_def split_beta)
    with ok ne show ?thesis by (simp add: log_ok_def)
  qed
  from ok last_lt scrape_channel_bound show ?thesis
    unfolding log_ok_def by blast
qed

theorem main_global_cap_amended_witness:
  "dispatched (main_loops never_stop example_env 2
       [''https://www.youtube.com/@a'', ''https://www.youtube.com/@b''] []) = [(0, 1), (1, 2)]
   \<and> total_scraped (main_loops never_stop example_env 2
       [''https://www.youtube.com/@a'', ''https://www.youtube.com/@b''] []) = 3
   \<and> (3 :: int) < 2 + int 2
   \<and> (0 :: int) \<le> 2
   \<and> scrape_channel_all_videos never_stop example_env 2 ''https://www.youtube.com/@b'' 0 =
       (Inr [example_row ''BBBBBBBBBBB'', example_row ''CCCCCCCCCCC''], 2)
   \<and> int (length [example_row ''BBBBBBBBBBB'', example_row ''CCCCCCCCCCC'']) \<le> 2"
proof -
  have d: "dispatched (main_loops never_stop example_env 2
       [''https://www.youtube.com/@a'', ''https://www.youtube.com/@b''] []) = [(0, 1), (1, 2)]"
    by code_simp
  have c: "scrape_channel_all_videos never_stop example_env 2 ''https://www.youtube.com/@b'' 0 =
       (Inr [example_row ''BBBBBBBBBBB'', example_row ''CCCCCCCCCCC''], 2)"
    by code_simp
  from main_global_cap_amended
         [where stop = never_stop and e = example_env and gm = 2
            and all_urls = "[''https://www.youtube.com/@a'', ''https://www.youtube.com/@b'']"
            and search_terms = "[]" and url = "''https://www.youtube.com/@b''" and t = 0
            and rows = "[example_row ''BBBBBBBBBBB'', example_row ''CCCCCCCCCCC'']" and t' = 2]
       d c
  show ?thesis by simp
qed

text \<open>
  Claim C3 as stated fails: with the cap 2 and two channel targets, the first adds one
  result, the second is dispatched at the total 1 and adds two, and the total is 3.
\<close>

theorem main_global_cap_counterexample:
  "\<not> total_scraped (main_loops never_stop example_env 2
        [''https://www.youtube.com/@a'', ''https://www.youtube.com/@b''] []) \<le> 2"
  by code_simp

section \<open>Properties of the URL functions\<close>

lemma id_char_plain:
  assumes "is_id_char c"
  shows "c \<notin> set ''/?#&=%+;:[]''" "32 < code_point c"
    "c \<notin> set [CHR 0x09, CHR 0x0D, CHR 0x0A]" "\<not> is_netloc_end c"
  using assms
  by (auto simp: is_id_char_def is_alpha_ascii_def is_upper_ascii_def is_lower_ascii_def
      is_digit_def code_point_def is_netloc_end_def)

lemma valid_id_chars: "valid_id v \<Longrightarrow> c \<in> set v \<Longrightarrow> is_id_char c"
  by (simp add: valid_id_def list_all_iff)

lemma valid_id_not_Nil: "valid_id v \<Longrightarrow> v \<noteq> []"
  by (auto simp: valid_id_def)

lemma before_first_append:
  "c \<notin> set a \<Longrightarrow> before_first c (a @ b) = a @ before_first c b"
  by (induction a) (auto simp: before_first_def)

lemma after_first_append:
  "c \<notin> set a \<Longrightarrow> after_first c (a @ b) = after_first c b"
  by (induction a) (auto simp: after_first_def)

lemma before_first_none: "c \<notin> set a \<Longrightarrow> before_first c a = a"
  by (induction a) (auto simp: before_first_def)

lemma after_first_none: "c \<notin> set a \<Longrightarrow> after_first c a = []"
  by (induction a) (auto simp: after_first_def)

lemma before_first_Cons: "before_first c (x # xs) = (if x = c then [] else x # before_first c xs)"
  by (simp add: before_first_def)

lemma after_first_Cons: "after_first c (x # xs) = (if x = c then xs else after_first c xs)"
  by (simp add: after_first_def)

lemma split_char_none: "c \<notin> set a \<Longrightarrow> split_char c a = [a]"
  by (induction a) auto

lemma split_char_append:
  "c \<notin> set a \<Longrightarrow> split_char c (a @ c # b) = a # split_char c b"
  by (induction a) auto

lemma escapes_plain: "CHR ''%'' \<notin> set s \<Longrightarrow> escapes s = map Lit s"
  by (induction s rule: escapes.induct) auto

lemma decode_utf8_plain: "decode_utf8 (map Lit s) = Within s"
  by (induction s) (auto simp: ranged_cons_def)

lemma unquote_plain: "CHR ''%'' \<notin> set s \<Longrightarrow> unquote s = Within s"
  by (simp add: unquote_def escapes_plain decode_utf8_plain)

lemma plus_to_space_plain: "CHR ''+'' \<notin> set s \<Longrightarrow> plus_to_space s = s"
  by (induction s) (auto simp: plus_to_space_def)

lemma search_shorts_short: "length s < 19 \<Longrightarrow> search_shorts s = None"
  by (induction s) (auto simp: valid_id_def)

lemma search_shorts_here:
  "valid_id v \<Longrightarrow> search_shorts (''/shorts/'' @ v @ r) = Some v"
  by (simp add: valid_id_def)

lemma first_segment_id:
  assumes "valid_id v"
  shows "first_segment (CHR ''/'' # v) = v"
proof -
  have nosl: "CHR ''/'' \<notin> set v"
    using assms valid_id_chars id_char_plain(1) by fastforce
  have dn: "dropWhile (\<lambda>c. c = CHR ''/'') xs = xs" if "CHR ''/'' \<notin> set xs" for xs
    using that by (cases xs) auto
  from nosl show ?thesis
    by (simp add: first_segment_def strip_chars_def strip_where_def dn before_first_none)
qed
lemma split_scheme_https: "split_scheme (''https://'' @ x) = (''https'', ''//'' @ x)"
proof -
  have a: "list_all is_scheme_char ''https''" by code_simp
  have b: "is_alpha_ascii CHR ''h''" by code_simp
  have c: "lower ''https'' = ''https''" by code_simp
  show ?thesis
    by (simp add: split_scheme_def before_first_Cons after_first_Cons a[simplified] b c Let_def)
qed

lemma split_netloc_youtube:
  "split_netloc (''//www.youtube.com/'' @ y) = (''www.youtube.com'', ''/'' @ y)"
  by (simp add: split_netloc_def is_netloc_end_def)

lemma split_netloc_youtu_be:
  "split_netloc (''//youtu.be/'' @ y) = (''youtu.be'', ''/'' @ y)"
  by (simp add: split_netloc_def is_netloc_end_def)

lemma https_in_uses_params: "''https'' \<in> set uses_params"
  by (simp add: uses_params_def)

lemma urlparse_https:
  assumes "split_netloc (''//'' @ remove_unsafe x) = (loc, url3)"
    and "CHR ''['' \<notin> set loc" "CHR '']'' \<notin> set loc"
    and "CHR '';'' \<notin> set (before_first CHR ''?'' (before_first CHR ''#'' url3))"
  shows "urlparse (''https://'' @ x) =
     Some \<lparr>scheme = ''https'', netloc = loc,
           path = before_first CHR ''?'' (before_first CHR ''#'' url3), params = [],
           query = after_first CHR ''?'' (before_first CHR ''#'' url3),
           fragment = after_first CHR ''#'' url3\<rparr>"
proof -
  have u1: "remove_unsafe (lstrip_c0 (''https://'' @ x)) = ''https://'' @ remove_unsafe x"
    by (simp add: code_point_def lstrip_c0_def remove_unsafe_def)
  show ?thesis
    unfolding urlparse_def u1
    using assms
    by (simp add: Let_def split_scheme_https[simplified] https_in_uses_params netloc_ok_def)
qed

lemma id_set_plain:
  assumes "valid_id v"
  shows "CHR ''/'' \<notin> set v" "CHR ''?'' \<notin> set v" "CHR ''#'' \<notin> set v" "CHR ''&'' \<notin> set v"
    "CHR ''='' \<notin> set v" "CHR ''%'' \<notin> set v" "CHR ''+'' \<notin> set v" "CHR '';'' \<notin> set v"
  using assms valid_id_chars id_char_plain(1) by fastforce+

lemma remove_unsafe_append: "remove_unsafe (a @ b) = remove_unsafe a @ remove_unsafe b"
  by (simp add: remove_unsafe_def)

lemma remove_unsafe_Cons:
  "remove_unsafe (c # cs) =
     (if c = CHR 0x09 \<or> c = CHR 0x0D \<or> c = CHR 0x0A then remove_unsafe cs
      else c # remove_unsafe cs)"
  by (simp add: remove_unsafe_def)

lemma remove_unsafe_id: "valid_id v \<Longrightarrow> remove_unsafe v = v"
  unfolding remove_unsafe_def
  by (rule filter_True) (use valid_id_chars id_char_plain(3) in blast)

lemma takeWhile_id_netloc:
  assumes "valid_id v"
  shows "takeWhile (\<lambda>c. \<not> is_netloc_end c) (v @ r) = v @ takeWhile (\<lambda>c. \<not> is_netloc_end c) r"
  using assms valid_id_chars id_char_plain(4) by (intro takeWhile_append2) blast

lemma starts_after_hash:
  "starts_in ''&#'' rest \<Longrightarrow> starts_in ''&'' (before_first CHR ''#'' (remove_unsafe rest))"
  by (cases rest) (auto simp: starts_in_def remove_unsafe_def before_first_Cons before_first_def)

lemma path_ends:
  "starts_in ''?#'' rest \<Longrightarrow>
     before_first CHR ''?'' (before_first CHR ''#'' (remove_unsafe rest)) = []"
  by (cases rest) (auto simp: starts_in_def remove_unsafe_def before_first_Cons before_first_def)

lemma urlparse_watch:
  assumes v: "valid_id vid"
  shows "urlparse (watch_link vid rest) =
     Some \<lparr>scheme = ''https'', netloc = ''www.youtube.com'', path = ''/watch'', params = [],
           query = ''v='' @ vid @ before_first CHR ''#'' (remove_unsafe rest),
           fragment = after_first CHR ''#'' (remove_unsafe rest)\<rparr>"
proof -
  let ?x = "''www.youtube.com/watch?v='' @ vid @ rest"
  let ?r = "remove_unsafe rest"
  have ru: "remove_unsafe ?x = ''www.youtube.com/watch?v='' @ vid @ ?r"
    by (simp add: remove_unsafe_append remove_unsafe_id[OF v] remove_unsafe_Cons)
  have sn: "split_netloc (''//'' @ remove_unsafe ?x) = (''www.youtube.com'', ''/watch?v='' @ vid @ ?r)"
    unfolding ru by (simp add: split_netloc_def is_netloc_end_def)
  have bf: "before_first CHR ''#'' (''/watch?v='' @ vid @ ?r) = ''/watch?v='' @ vid @ before_first CHR ''#'' ?r"
    using id_set_plain(3)[OF v] by (simp add: before_first_Cons before_first_append)
  have af: "after_first CHR ''#'' (''/watch?v='' @ vid @ ?r) = after_first CHR ''#'' ?r"
    using id_set_plain(3)[OF v] by (simp add: after_first_Cons after_first_append)
  have "urlparse (''https://'' @ ?x) =
     Some \<lparr>scheme = ''https'', netloc = ''www.youtube.com'',
           path = before_first CHR ''?'' (before_first CHR ''#'' (''/watch?v='' @ vid @ ?r)), params = [],
           query = after_first CHR ''?'' (before_first CHR ''#'' (''/watch?v='' @ vid @ ?r)),
           fragment = after_first CHR ''#'' (''/watch?v='' @ vid @ ?r)\<rparr>"
    by (rule urlparse_https[OF sn]) (simp_all add: bf before_first_Cons)
  then show ?thesis
    unfolding bf af by (simp add: watch_link_def before_first_Cons after_first_Cons)
qed

lemma urlparse_short:
  assumes v: "valid_id vid" and r: "starts_in ''?#'' rest"
  shows "urlparse (short_link vid rest) =
     Some \<lparr>scheme = ''https'', netloc = ''youtu.be'', path = CHR ''/'' # vid, params = [],
           query = after_first CHR ''?'' (before_first CHR ''#'' (remove_unsafe rest)),
           fragment = after_first CHR ''#'' (remove_unsafe rest)\<rparr>"
proof -
  let ?x = "''youtu.be/'' @ vid @ rest"
  let ?r = "remove_unsafe rest"
  have ru: "remove_unsafe ?x = ''youtu.be/'' @ vid @ ?r"
    by (simp add: remove_unsafe_append remove_unsafe_id[OF v] remove_unsafe_Cons)
  have sn: "split_netloc (''//'' @ remove_unsafe ?x) = (''youtu.be'', CHR ''/'' # vid @ ?r)"
    unfolding ru by (simp add: split_netloc_def is_netloc_end_def)
  have bf: "before_first CHR ''#'' (CHR ''/'' # vid @ ?r) = CHR ''/'' # vid @ before_first CHR ''#'' ?r"
    using id_set_plain(3)[OF v] by (simp add: before_first_Cons before_first_append)
  have af: "after_first CHR ''#'' (CHR ''/'' # vid @ ?r) = after_first CHR ''#'' ?r"
    using id_set_plain(3)[OF v] by (simp add: after_first_Cons after_first_append)
  have p: "before_first CHR ''?'' (CHR ''/'' # vid @ before_first CHR ''#'' ?r) = CHR ''/'' # vid"
    using id_set_plain(2)[OF v] path_ends[OF r] by (simp add: before_first_Cons before_first_append)
  have q: "after_first CHR ''?'' (CHR ''/'' # vid @ before_first CHR ''#'' ?r) =
           after_first CHR ''?'' (before_first CHR ''#'' ?r)"
    using id_set_plain(2)[OF v] by (simp add: after_first_Cons after_first_append)
  have "urlparse (''https://'' @ ?x) =
     Some \<lparr>scheme = ''https'', netloc = ''youtu.be'',
           path = before_first CHR ''?'' (before_first CHR ''#'' (CHR ''/'' # vid @ ?r)), params = [],
           query = after_first CHR ''?'' (before_first CHR ''#'' (CHR ''/'' # vid @ ?r)),
           fragment = after_first CHR ''#'' (CHR ''/'' # vid @ ?r)\<rparr>"
    by (rule urlparse_https[OF sn]) (use id_set_plain(8)[OF v] in \<open>simp_all add: bf p\<close>)
  then show ?thesis
    unfolding bf af p q by (simp add: short_link_def)
qed

lemma urlparse_shorts:
  assumes v: "valid_id vid" and r: "starts_in ''?#'' rest"
  shows "urlparse (shorts_link vid rest) =
     Some \<lparr>scheme = ''https'', netloc = ''www.youtube.com'', path = ''/shorts/'' @ vid, params = [],
           query = after_first CHR ''?'' (before_first CHR ''#'' (remove_unsafe rest)),
           fragment = after_first CHR ''#'' (remove_unsafe rest)\<rparr>"
proof -
  let ?x = "''www.youtube.com/shorts/'' @ vid @ rest"
  let ?r = "remove_unsafe rest"
  have ru: "remove_unsafe ?x = ''www.youtube.com/shorts/'' @ vid @ ?r"
    by (simp add: remove_unsafe_append remove_unsafe_id[OF v] remove_unsafe_Cons)
  have sn: "split_netloc (''//'' @ remove_unsafe ?x) = (''www.youtube.com'', ''/shorts/'' @ vid @ ?r)"
    unfolding ru by (simp add: split_netloc_def is_netloc_end_def)
  have bf: "before_first CHR ''#'' (''/shorts/'' @ vid @ ?r) = ''/shorts/'' @ vid @ before_first CHR ''#'' ?r"
    using id_set_plain(3)[OF v] by (simp add: before_first_Cons before_first_append)
  have af: "after_first CHR ''#'' (''/shorts/'' @ vid @ ?r) = after_first CHR ''#'' ?r"
    using id_set_plain(3)[OF v] by (simp add: after_first_Cons after_first_append)
  have p: "before_first CHR ''?'' (''/shorts/'' @ vid @ before_first CHR ''#'' ?r) = ''/shorts/'' @ vid"
    using id_set_plain(2)[OF v] path_ends[OF r] by (simp add: before_first_Cons before_first_append)
  have q: "after_first CHR ''?'' (''/shorts/'' @ vid @ before_first CHR ''#'' ?r) =
           after_first CHR ''?'' (before_first CHR ''#'' ?r)"
    using id_set_plain(2)[OF v] by (simp add: after_first_Cons after_first_append)
  have "urlparse (''https://'' @ ?x) =
     Some \<lparr>scheme = ''https'', netloc = ''www.youtube.com'',
           path = before_first CHR ''?'' (before_first CHR ''#'' (''/shorts/'' @ vid @ ?r)), params = [],
           query = after_first CHR ''?'' (before_first CHR ''#'' (''/shorts/'' @ vid @ ?r)),
           fragment = after_first CHR ''#'' (''/shorts/'' @ vid @ ?r)\<rparr>"
    by (rule urlparse_https[OF sn]) (use id_set_plain(8)[OF v] in \<open>simp_all add: bf[simplified] p[simplified]\<close>)
  then show ?thesis
    unfolding bf af p q by (simp add: shorts_link_def)
qed

lemma qs_first_v_here:
  assumes v: "valid_id vid" and r: "starts_in ''&'' r"
  shows "qs_first_v (''v='' @ vid @ r) = Some (Within vid)"
proof -
  have pv: "plus_to_space ''v'' = ''v''"
    by (simp add: plus_to_space_def)
  have pp: "parse_pair (''v='' @ vid) = Some (Within ''v'', Within vid)"
    using valid_id_not_Nil[OF v] id_set_plain(6,7)[OF v]
    by (simp add: parse_pair_def before_first_Cons after_first_Cons unquote_plain
        plus_to_space_plain pv)
  have amp: "CHR ''&'' \<notin> set (''v='' @ vid)"
    using id_set_plain(4)[OF v] by simp
  show ?thesis
  proof (cases r)
    case Nil
    with split_char_none[OF amp] pp show ?thesis
      by (simp add: qs_first_v_def parse_qsl_def List.map_filter_simps)
  next
    case (Cons c y)
    with r have "r = CHR ''&'' # y" by (simp add: starts_in_def)
    with split_char_append[OF amp, of y] pp show ?thesis
      by (simp add: qs_first_v_def parse_qsl_def List.map_filter_simps)
  qed
qed

lemma not_youtu_be: "\<not> sublist ''youtu.be'' ''www.youtube.com''"
  by code_simp

lemma is_youtu_be: "sublist ''youtu.be'' ''youtu.be''"
  by simp

lemma watch_in_path: "sublist ''watch'' ''/watch''" "sublist ''/watch'' ''/watch''"
  by code_simp+

lemma clean_watch:
  assumes v: "valid_id vid" and r: "starts_in ''&#'' rest"
  shows "clean_video_url (watch_link vid rest) = Within (watch_link vid [])"
proof -
  have ne: "watch_link vid rest \<noteq> []" by (simp add: watch_link_def)
  have ss: "search_shorts ''/watch'' = None" by (rule search_shorts_short) simp
  from ne ss show ?thesis
    unfolding clean_video_url_def urlparse_watch[OF v]
    using qs_first_v_here[OF v starts_after_hash[OF r]] not_youtu_be watch_in_path
    by (simp add: watch_link_def)
qed

lemma extract_watch:
  assumes v: "valid_id vid" and r: "starts_in ''&#'' rest"
  shows "extract_video_id (watch_link vid rest) = Within (Some vid)"
  unfolding extract_video_id_def urlparse_watch[OF v]
  using qs_first_v_here[OF v starts_after_hash[OF r]] not_youtu_be watch_in_path
  by simp

lemma clean_short:
  assumes v: "valid_id vid" and r: "starts_in ''?#'' rest"
  shows "clean_video_url (short_link vid rest) = Within (watch_link vid [])"
proof -
  have ne: "short_link vid rest \<noteq> []" by (simp add: short_link_def)
  have ss: "search_shorts (CHR ''/'' # vid) = None"
    using v by (intro search_shorts_short) (simp add: valid_id_def)
  from ne ss show ?thesis
    unfolding clean_video_url_def urlparse_short[OF v r]
    using first_segment_id[OF v] valid_id_not_Nil[OF v]
    by (simp add: watch_link_def)
qed

lemma extract_short:
  assumes v: "valid_id vid" and r: "starts_in ''?#'' rest"
  shows "extract_video_id (short_link vid rest) = Within (Some vid)"
  unfolding extract_video_id_def urlparse_short[OF v r]
  using first_segment_id[OF v] by simp

lemma clean_shorts:
  assumes v: "valid_id vid" and r: "starts_in ''?#'' rest"
  shows "clean_video_url (shorts_link vid rest) = Within (shorts_link vid [])"
proof -
  have ne: "shorts_link vid rest \<noteq> []" by (simp add: shorts_link_def)
  have ss: "search_shorts (''/shorts/'' @ vid) = Some vid"
    using search_shorts_here[OF v, of "[]"] by simp
  from ne show ?thesis
    unfolding clean_video_url_def urlparse_shorts[OF v r]
    by (simp add: ss[simplified] shorts_link_def)
qed

lemma extract_shorts_canonical:
  assumes v: "valid_id vid"
  shows "extract_video_id (shorts_link vid []) = Within (Some vid)"
proof -
  have r: "starts_in ''?#'' []" by (simp add: starts_in_def)
  have ss: "search_shorts (''/shorts/'' @ vid) = Some vid"
    using search_shorts_here[OF v, of "[]"] by simp
  show ?thesis
    unfolding extract_video_id_def urlparse_shorts[OF v r]
    using not_youtu_be
    by (simp add: ss[simplified] remove_unsafe_def before_first_def after_first_def)
qed

lemma starts_in_Nil: "starts_in chars []"
  by (simp add: starts_in_def)

lemma search_shorts_valid: "search_shorts p = Some v \<Longrightarrow> valid_id v"
  by (induction p) (auto split: if_splits)

lemma qs_first_v_empty: "qs_first_v [] = None"
  by (simp add: qs_first_v_def parse_qsl_def parse_pair_def List.map_filter_simps)

lemma sublist_not_Nil: "sublist (c # cs) xs \<Longrightarrow> xs \<noteq> []"
  by auto




text \<open>
  Claim C9 as stated fails: from a \<^verbatim>\<open>youtu.be\<close> link the identifier is the first path
  segment whatever its length, and from a watch link it is the \<^verbatim>\<open>v\<close> parameter.
\<close>

theorem extract_video_id_counterexample:
  "extract_video_id ''https://youtu.be/abc'' = Within (Some ''abc'')
   \<and> extract_video_id ''https://www.youtube.com/watch?v=abc'' = Within (Some ''abc'')
   \<and> \<not> valid_id ''abc''"
  by code_simp

text \<open>
  Claim C9, as the code has it. Let the link parse. If its host contains \<^verbatim>\<open>youtu.be\<close>, the
  identifier is the first path segment as it stands, of any length and possibly empty.
  Otherwise, if its path contains \<^verbatim>\<open>/watch\<close> and its query has a parameter \<^verbatim>\<open>v\<close>, the
  identifier is the first value of \<^verbatim>\<open>v\<close> after decoding (\<^verbatim>\<open>+\<close> as a space, then the
  percent escapes), of any length. Otherwise an identifier, if there is one, is taken from
  a shorts path and is a token of eleven characters from letters, digits, \<^verbatim>\<open>_\<close> and \<^verbatim>\<open>-\<close>.
  For such a token \<open>vid\<close> these links all yield \<open>vid\<close>: the watch link
  \<^verbatim>\<open>https://www.youtube.com/watch?v=\<close>\<open>vid\<close> followed by nothing or by a text that starts with
  \<^verbatim>\<open>&\<close> or \<^verbatim>\<open>#\<close>, and its canonical form; the short link \<^verbatim>\<open>https://youtu.be/\<close>\<open>vid\<close> followed
  by nothing or by a text that starts with \<^verbatim>\<open>?\<close> or \<^verbatim>\<open>#\<close>, and its canonical form; the
  canonical form of the shorts link \<^verbatim>\<open>https://www.youtube.com/shorts/\<close>\<open>vid\<close> followed by nothing
  or by a text that starts with \<^verbatim>\<open>?\<close> or \<^verbatim>\<open>#\<close>; and the bare shorts link.
\<close>

theorem extract_video_id_amended:
  "(urlparse url1 = Some p1 \<and> sublist ''youtu.be'' (netloc p1)
    \<longrightarrow> extract_video_id url1 = Within (Some (first_segment (path p1))))
   \<and> (urlparse url2 = Some p2 \<and> \<not> sublist ''youtu.be'' (netloc p2)
        \<and> sublist ''/watch'' (path p2) \<and> qs_first_v (query p2) = Some w
      \<longrightarrow> extract_video_id url2 = map_ranged Some w)
   \<and> (extract_video_id url3 = Within (Some v) \<and> urlparse url3 = Some p3
        \<and> \<not> sublist ''youtu.be'' (netloc p3)
        \<and> (\<not> sublist ''/watch'' (path p3) \<or> qs_first_v (query p3) = None)
      \<longrightarrow> valid_id v)
   \<and> (valid_id vid \<longrightarrow>
        (starts_in ''&#'' r1 \<longrightarrow>
           extract_video_id (watch_link vid r1) = Within (Some vid)
           \<and> extract_canonical (watch_link vid r1) = Within (Some vid))
      \<and> (starts_in ''?#'' r2 \<longrightarrow>
           extract_video_id (short_link vid r2) = Within (Some vid)
           \<and> extract_canonical (short_link vid r2) = Within (Some vid)
           \<and> extract_canonical (shorts_link vid r2) = Within (Some vid))
      \<and> extract_video_id (shorts_link vid []) = Within (Some vid))"
proof (intro conjI impI)
  assume "urlparse url1 = Some p1 \<and> sublist ''youtu.be'' (netloc p1)"
  then show "extract_video_id url1 = Within (Some (first_segment (path p1)))"
    using sublist_not_Nil[of _ _ "netloc p1"] by (auto simp: extract_video_id_def)
next
  assume a: "urlparse url2 = Some p2 \<and> \<not> sublist ''youtu.be'' (netloc p2)
        \<and> sublist ''/watch'' (path p2) \<and> qs_first_v (query p2) = Some w"
  then have "query p2 \<noteq> []" using qs_first_v_empty by auto
  with a show "extract_video_id url2 = map_ranged Some w"
    by (cases w) (auto simp: extract_video_id_def)
next
  assume a: "extract_video_id url3 = Within (Some v) \<and> urlparse url3 = Some p3
        \<and> \<not> sublist ''youtu.be'' (netloc p3)
        \<and> (\<not> sublist ''/watch'' (path p3) \<or> qs_first_v (query p3) = None)"
  then have "search_shorts (path p3) = Some v"
    by (auto simp: extract_video_id_def split: if_splits)
  then show "valid_id v" by (rule search_shorts_valid)
next
  assume v: "valid_id vid"
  show "extract_video_id (shorts_link vid []) = Within (Some vid)"
    by (rule extract_shorts_canonical[OF v])
  {
    assume r: "starts_in ''&#'' r1"
    show "extract_video_id (watch_link vid r1) = Within (Some vid)"
      by (rule extract_watch[OF v r])
    show "extract_canonical (watch_link vid r1) = Within (Some vid)"
      by (simp add: extract_canonical_def clean_watch[OF v r] extract_watch[OF v] starts_in_Nil)
  }
  {
    assume r: "starts_in ''?#'' r2"
    show "extract_video_id (short_link vid r2) = Within (Some vid)"
      by (rule extract_short[OF v r])
    show "extract_canonical (short_link vid r2) = Within (Some vid)"
      by (simp add: extract_canonical_def clean_short[OF v r] extract_watch[OF v] starts_in_Nil)
    show "extract_canonical (shorts_link vid r2) = Within (Some vid)"
      by (simp add: extract_canonical_def clean_shorts[OF v r] extract_shorts_canonical[OF v])
  }
qed

theorem extract_video_id_amended_witness:
  "urlparse ''https://youtu.be/abc/def?t=1'' =
       Some \<lparr>scheme = ''https'', netloc = ''youtu.be'', path = ''/abc/def'',
             params = [], query = ''t=1'', fragment = []\<rparr>
   \<and> sublist ''youtu.be'' ''youtu.be''
   \<and> first_segment ''/abc/def'' = ''abc''
   \<and> extract_video_id ''https://youtu.be/abc/def?t=1'' = Within (Some ''abc'')
   \<and> urlparse ''https://www.youtube.com/watch?v=a+b%21&v=dQw4w9WgXcQ'' =
       Some \<lparr>scheme = ''https'', netloc = ''www.youtube.com'', path = ''/watch'',
             params = [], query = ''v=a+b%21&v=dQw4w9WgXcQ'', fragment = []\<rparr>
   \<and> \<not> sublist ''youtu.be'' ''www.youtube.com''
   \<and> sublist ''/watch'' ''/watch''
   \<and> qs_first_v ''v=a+b%21&v=dQw4w9WgXcQ'' = Some (Within ''a b!'')
   \<and> extract_video_id ''https://www.youtube.com/watch?v=a+b%21&v=dQw4w9WgXcQ'' =
       Within (Some ''a b!'')
   \<and> extract_video_id ''https://www.youtube.com/shorts/dQw4w9WgXcQ?feature=share'' =
       Within (Some ''dQw4w9WgXcQ'')
   \<and> urlparse ''https://www.youtube.com/shorts/dQw4w9WgXcQ?feature=share'' =
       Some \<lparr>scheme = ''https'', netloc = ''www.youtube.com'', path = ''/shorts/dQw4w9WgXcQ'',
             params = [], query = ''feature=share'', fragment = []\<rparr>
   \<and> \<not> sublist ''/watch'' ''/shorts/dQw4w9WgXcQ''
   \<and> valid_id ''dQw4w9WgXcQ''
   \<and> starts_in ''&#'' ''&t=10s''
   \<and> extract_video_id (watch_link ''dQw4w9WgXcQ'' ''&t=10s'') = Within (Some ''dQw4w9WgXcQ'')
   \<and> extract_canonical (watch_link ''dQw4w9WgXcQ'' ''&t=10s'') = Within (Some ''dQw4w9WgXcQ'')
   \<and> starts_in ''?#'' ''?t=3''
   \<and> extract_video_id (short_link ''dQw4w9WgXcQ'' ''?t=3'') = Within (Some ''dQw4w9WgXcQ'')
   \<and> extract_canonical (short_link ''dQw4w9WgXcQ'' ''?t=3'') = Within (Some ''dQw4w9WgXcQ'')
   \<and> extract_canonical (shorts_link ''dQw4w9WgXcQ'' ''?t=3'') = Within (Some ''dQw4w9WgXcQ'')
   \<and> extract_video_id (shorts_link ''dQw4w9WgXcQ'' []) = Within (Some ''dQw4w9WgXcQ'')"
proof -
  have u1: "urlparse ''https://youtu.be/abc/def?t=1'' =
       Some \<lparr>scheme = ''https'', netloc = ''youtu.be'', path = ''/abc/def'',
             params = [], query = ''t=1'', fragment = []\<rparr>"
    by code_simp
  have y1: "sublist ''youtu.be'' ''youtu.be''" by simp
  have f1: "first_segment ''/abc/def'' = ''abc''" by code_simp
  have u2: "urlparse ''https://www.youtube.com/watch?v=a+b%21&v=dQw4w9WgXcQ'' =
       Some \<lparr>scheme = ''https'', netloc = ''www.youtube.com'', path = ''/watch'',
             params = [], query = ''v=a+b%21&v=dQw4w9WgXcQ'', fragment = []\<rparr>"
    by code_simp
  have n1: "\<not> sublist ''youtu.be'' ''www.youtube.com''" by code_simp
  have w2: "sublist ''/watch'' ''/watch''" by simp
  have q2: "qs_first_v ''v=a+b%21&v=dQw4w9WgXcQ'' = Some (Within ''a b!'')" by code_simp
  have e3: "extract_video_id ''https://www.youtube.com/shorts/dQw4w9WgXcQ?feature=share'' =
       Within (Some ''dQw4w9WgXcQ'')"
    by code_simp
  have u3: "urlparse ''https://www.youtube.com/shorts/dQw4w9WgXcQ?feature=share'' =
       Some \<lparr>scheme = ''https'', netloc = ''www.youtube.com'', path = ''/shorts/dQw4w9WgXcQ'',
             params = [], query = ''feature=share'', fragment = []\<rparr>"
    by code_simp
  have n3: "\<not> sublist ''/watch'' ''/shorts/dQw4w9WgXcQ''" by code_simp
  have s1: "starts_in ''&#'' ''&t=10s''" by (simp add: starts_in_def)
  have s2: "starts_in ''?#'' ''?t=3''" by (simp add: starts_in_def)
  note t = extract_video_id_amended
         [where ?url1.0 = "''https://youtu.be/abc/def?t=1''"
            and ?p1.0 = "\<lparr>scheme = ''https'', netloc = ''youtu.be'', path = ''/abc/def'',
                  params = [], query = ''t=1'', fragment = []\<rparr>"
            and ?url2.0 = "''https://www.youtube.com/watch?v=a+b%21&v=dQw4w9WgXcQ''"
            and ?p2.0 = "\<lparr>scheme = ''https'', netloc = ''www.youtube.com'', path = ''/watch'',
                  params = [], query = ''v=a+b%21&v=dQw4w9WgXcQ'', fragment = []\<rparr>"
            and w = "Within ''a b!''"
            and ?url3.0 = "''https://www.youtube.com/shorts/dQw4w9WgXcQ?feature=share''"
            and v = "''dQw4w9WgXcQ''"
            and ?p3.0 = "\<lparr>scheme = ''https'', netloc = ''www.youtube.com'',
                  path = ''/shorts/dQw4w9WgXcQ'', params = [], query = ''feature=share'',
                  fragment = []\<rparr>"
            and vid = "''dQw4w9WgXcQ''" and ?r1.0 = "''&t=10s''" and ?r2.0 = "''?t=3''"]
  from t u1 y1 f1 u2 n1 w2 q2 e3 u3 n3 s1 s2
  show ?thesis by simp
qed

section \<open>Properties of the harvesters\<close>

lemma scan_hrefs_inv:
  assumes "harvest_ok cap url_pattern seen0 (collected, links_seen)"
    and "scan_hrefs stop cap url_pattern hs (collected, links_seen, t) = Within (collected', links_seen', t')"
  shows "harvest_ok cap url_pattern seen0 (collected', links_seen')"
  using assms
proof (induction hs arbitrary: collected links_seen t)
  case Nil
  then show ?case by simp
next
  case (Cons h hs)
  let ?u = "if prefix ''http'' h then h else ''https://www.youtube.com'' @ h"
  show ?case
  proof (cases "stop t \<or> cap \<le> int (length collected)")
    case True
    with Cons.prems show ?thesis by auto
  next
    case False
    with Cons.prems(2) obtain full where cf: "clean_video_url ?u = Within full"
      by (cases "clean_video_url ?u") auto
    with False Cons.prems(2) obtain ev where ex: "extract_video_id full = Within ev"
      by (cases "extract_video_id full") auto
    show ?thesis
    proof (cases "(case ev of None \<Rightarrow> False | Some vid \<Rightarrow> vid \<noteq> [])
                  \<and> sublist url_pattern full \<and> full \<notin> links_seen")
      case True
      with False Cons.prems(1) have ok: "harvest_ok cap url_pattern seen0 (collected @ [full], insert full links_seen)"
        by (auto simp: harvest_ok_def)
      from True False Cons.prems(2) cf ex
      have "scan_hrefs stop cap url_pattern hs (collected @ [full], insert full links_seen, Suc t)
            = Within (collected', links_seen', t')"
        by (auto split: option.splits)
      from Cons.IH[OF ok this] show ?thesis .
    next
      case False2: False
      with False Cons.prems(2) cf ex
      have "scan_hrefs stop cap url_pattern hs (collected, links_seen, Suc t)
            = Within (collected', links_seen', t')"
        by (auto split: option.splits if_splits)
      from Cons.IH[OF Cons.prems(1) this] show ?thesis .
    qed
  qed
qed

lemma collect_loop_inv:
  assumes "harvest_ok cap url_pattern seen0 (collected, links_seen)"
    and "collect_loop stop pg cap url_pattern rounds (collected, links_seen, t) = Within (collected', links_seen', t')"
  shows "harvest_ok cap url_pattern seen0 (collected', links_seen')"
  using assms
proof (induction stop pg cap url_pattern rounds "(collected, links_seen, t)"
    arbitrary: collected links_seen t rule: collect_loop.induct)
  case (1 stop pg cap url_pattern rounds collected links_seen t)
  show ?case
  proof (cases "int (length collected) < cap \<and> rounds < max_rounds \<and> \<not> stop t")
    case False
    with "1.prems" show ?thesis
      by (subst (asm) collect_loop.simps) (auto split: if_splits)
  next
    case True
    with "1.prems"(2) obtain c1 s1 t1 where sc: "scan_hrefs stop cap url_pattern (hrefs_at pg rounds)
        (collected, links_seen, Suc t) = Within (c1, s1, t1)"
      by (subst (asm) collect_loop.simps)
        (cases "scan_hrefs stop cap url_pattern (hrefs_at pg rounds) (collected, links_seen, Suc t)",
          auto)
    from scan_hrefs_inv[OF "1.prems"(1) sc] have ok1: "harvest_ok cap url_pattern seen0 (c1, s1)" .
    have step: "collect_loop stop pg cap url_pattern rounds (collected, links_seen, t) =
       (if cap \<le> int (length c1) then Within (c1, s1, t1)
        else if scroll_ok pg rounds
             then collect_loop stop pg cap url_pattern (Suc rounds) (c1, s1, t1)
             else Within (c1, s1, t1))"
      using True sc by (subst collect_loop.simps) simp
    show ?thesis
    proof (cases "cap \<le> int (length c1) \<or> \<not> scroll_ok pg rounds")
      case stop_here: True
      with step "1.prems"(2) have "(c1, s1, t1) = (collected', links_seen', t')"
        by (auto split: if_splits)
      with ok1 show ?thesis by simp
    next
      case False
      with step "1.prems"(2)
      have next_round: "collect_loop stop pg cap url_pattern (Suc rounds) (c1, s1, t1) = Within (collected', links_seen', t')"
        by simp
      from True False have "int (length collected) < cap \<and> rounds < max_rounds" "\<not> stop t"
        "\<not> cap \<le> int (length c1)" "scroll_ok pg rounds"
        by auto
      from "1.hyps"[OF this(1,2) sc refl refl this(3,4) ok1 next_round]
      show ?thesis .
    qed
  qed
qed

lemma collect_urls_from_page_ok:
  assumes "collect_urls_from_page stop pg url_pattern cap links_seen t = Within (collected, links_seen', t')"
  shows "int (length collected) \<le> max cap 0"
    and "set collected \<inter> links_seen = {}"
    and "distinct collected"
    and "links_seen \<union> set collected \<subseteq> links_seen'"
proof -
  have "harvest_ok (max cap 0) url_pattern links_seen (collected, links_seen')"
  proof (cases "0 < cap \<and> (\<exists>u. ready pg = Inr u) \<and> \<not> is_page_unavailable (after_ready pg)")
    case False
    with assms have "collected = [] \<and> links_seen' = links_seen"
      by (auto simp: collect_urls_from_page_def split: sum.splits if_splits)
    then show ?thesis by (simp add: harvest_ok_def)
  next
    case True
    with assms have run: "collect_loop stop pg cap url_pattern 0 ([], links_seen, t) = Within (collected, links_seen', t')"
      by (auto simp: collect_urls_from_page_def simp del: collect_loop.simps)
    from True have "harvest_ok cap url_pattern links_seen ([], links_seen)"
      by (simp add: harvest_ok_def)
    from collect_loop_inv[OF this run] True show ?thesis by (simp add: max_def)
  qed
  then show "int (length collected) \<le> max cap 0" "set collected \<inter> links_seen = {}"
    "distinct collected" "links_seen \<union> set collected \<subseteq> links_seen'"
    by (auto simp: harvest_ok_def)
qed

text \<open>
  Claim C2 on the channel tabs: \<^verbatim>\<open>collect_urls_from_page\<close> returns at most \<open>cap\<close> URLs (none
  for a cap of zero or less), none of which was in the shared set when it was examined,
  and none twice. The append there is guarded by the pattern as well as by the set.
\<close>

lemma collect_urls_from_page_example:
  "map_ranged fst (collect_urls_from_page never_stop example_tab_page ''/watch'' 2 {} 0) =
     Within [''https://www.youtube.com/watch?v=CCCCCCCCCCC'',
             ''https://www.youtube.com/watch?v=DDDDDDDDDDD'']"
  by code_simp

text \<open>
  Claim C2 on the search page. The loop of \<^verbatim>\<open>scrape_search\<close> for the type \<^verbatim>\<open>video\<close> counts
  only the collected URLs that contain \<^verbatim>\<open>/watch\<close>, but appends every unseen link that
  \<^verbatim>\<open>gather_regular_hrefs\<close> returns. With the cap 1 and a result page whose video renderers
  link to two shorts and then a video, the loop collects all three; all three pass the
  filter on identifiers and go on to extraction.
\<close>

theorem scrape_search_video_exceeds_cap:
  "video_loop never_stop example_search_page 1 0 ([], {}, 0) =
     Within (Inr ([''https://www.youtube.com/shorts/AAAAAAAAAAA'',
                   ''https://www.youtube.com/shorts/BBBBBBBBBBB'',
                   ''https://www.youtube.com/watch?v=CCCCCCCCCCC''],
                  {''https://www.youtube.com/shorts/AAAAAAAAAAA'',
                   ''https://www.youtube.com/shorts/BBBBBBBBBBB'',
                   ''https://www.youtube.com/watch?v=CCCCCCCCCCC''}, 4))
   \<and> with_video_id [''https://www.youtube.com/shorts/AAAAAAAAAAA'',
                     ''https://www.youtube.com/shorts/BBBBBBBBBBB'',
                     ''https://www.youtube.com/watch?v=CCCCCCCCCCC''] =
       Within [''https://www.youtube.com/shorts/AAAAAAAAAAA'',
               ''https://www.youtube.com/shorts/BBBBBBBBBBB'',
               ''https://www.youtube.com/watch?v=CCCCCCCCCCC'']
   \<and> \<not> int (length [''https://www.youtube.com/shorts/AAAAAAAAAAA'',
                        ''https://www.youtube.com/shorts/BBBBBBBBBBB'',
                        ''https://www.youtube.com/watch?v=CCCCCCCCCCC'']) \<le> 1"
  by code_simp

section \<open>Properties of the readiness check\<close>

lemma phrase_not_empty: "has_unavailable_phrase l \<Longrightarrow> l \<noteq> []"
  by (auto simp: has_unavailable_phrase_def unavailable_phrases_def)

lemma phrase_unavailable:
  assumes "not_found_count ps = Inr n" "body_text ps = Inr s" "has_unavailable_phrase (lower s)"
  shows "is_page_unavailable ps"
proof -
  from phrase_not_empty[OF assms(3)] have "s \<noteq> []" by (auto simp: lower_def)
  with assms show ?thesis by (simp add: is_page_unavailable_def)
qed

text \<open>
  Claim C5 as stated fails. A stop request is checked before the page is looked at, and
  \<^verbatim>\<open>goto_and_ready\<close> then raises instead of returning; and when the count of error-page
  elements raises, \<^verbatim>\<open>is_page_unavailable\<close> answers \<^verbatim>\<open>False\<close> without reading the body text,
  so the other signals decide.
\<close>

theorem unavailable_page_counterexample:
  "body_text gone_page = Inr (''This page isn'' @ [CHR 0x27] @ ''t available. Sorry about that.'')
   \<and> has_unavailable_phrase (lower (''This page isn'' @ [CHR 0x27] @ ''t available. Sorry about that.''))
   \<and> goto_and_ready (gone_nav\<lparr>stop_requested := True\<rparr>) = Inl (Exception ''RetryError'')
   \<and> body_text broken_page = body_text gone_page
   \<and> \<not> is_page_unavailable broken_page
   \<and> goto_and_ready (gone_nav\<lparr>early := broken_page\<rparr>) = Inr Ready"
  by code_simp

text \<open>
  Claim C5, as the code has it. When the count of error-page elements does not raise and
  the body text contains one of the phrases, in any mix of cases, \<^verbatim>\<open>is_page_unavailable\<close>
  is true. When moreover no stop was requested, \<^verbatim>\<open>goto_and_ready\<close> returns at its first
  availability check, whatever the other signals of the page are; and the harvester of a
  channel tab, which asks \<^verbatim>\<open>is_page_unavailable\<close> itself after \<^verbatim>\<open>goto_and_ready\<close>, collects
  nothing from such a page.
\<close>

theorem unavailable_page_amended:
  "(not_found_count ps = Inr n \<and> body_text ps = Inr s \<and> has_unavailable_phrase (lower s)
      \<longrightarrow> is_page_unavailable ps)
   \<and> (\<not> stop_requested nv \<and> not_found_count (early nv) = Inr n \<and> body_text (early nv) = Inr s
        \<and> has_unavailable_phrase (lower s)
      \<longrightarrow> goto_and_ready nv = Inr Unavailable)
   \<and> (not_found_count (after_ready pg) = Inr n \<and> body_text (after_ready pg) = Inr s
        \<and> has_unavailable_phrase (lower s)
      \<longrightarrow> map_ranged fst (collect_urls_from_page stop pg url_pattern cap links_seen t) = Within [])"
proof (intro conjI impI)
  assume "not_found_count ps = Inr n \<and> body_text ps = Inr s \<and> has_unavailable_phrase (lower s)"
  then show "is_page_unavailable ps" using phrase_unavailable by blast
next
  assume a: "\<not> stop_requested nv \<and> not_found_count (early nv) = Inr n
      \<and> body_text (early nv) = Inr s \<and> has_unavailable_phrase (lower s)"
  then have "is_page_unavailable (early nv)" using phrase_unavailable by blast
  with a show "goto_and_ready nv = Inr Unavailable" by (simp add: goto_and_ready_def)
next
  assume "not_found_count (after_ready pg) = Inr n \<and> body_text (after_ready pg) = Inr s
      \<and> has_unavailable_phrase (lower s)"
  then have "is_page_unavailable (after_ready pg)" using phrase_unavailable by blast
  then show "map_ranged fst (collect_urls_from_page stop pg url_pattern cap links_seen t) = Within []"
    by (simp add: collect_urls_from_page_def split: sum.splits)
qed

theorem unavailable_page_amended_witness:
  "not_found_count gone_page = Inr 0
   \<and> body_text gone_page = Inr (''This page isn'' @ [CHR 0x27] @ ''t available. Sorry about that.'')
   \<and> has_unavailable_phrase (lower (''This page isn'' @ [CHR 0x27] @ ''t available. Sorry about that.''))
   \<and> is_page_unavailable gone_page
   \<and> \<not> stop_requested gone_nav
   \<and> early gone_nav = gone_page
   \<and> goto_and_ready gone_nav = Inr Unavailable
   \<and> after_ready (example_tab_page\<lparr>after_ready := gone_page\<rparr>) = gone_page
   \<and> map_ranged fst (collect_urls_from_page never_stop (example_tab_page\<lparr>after_ready := gone_page\<rparr>)
          ''/watch'' 2 {} 0) = Within []"
proof -
  have c: "not_found_count gone_page = Inr 0" by (simp add: gone_page_def)
  have b: "body_text gone_page = Inr (''This page isn'' @ [CHR 0x27] @ ''t available. Sorry about that.'')"
    by (simp add: gone_page_def)
  have p: "has_unavailable_phrase (lower (''This page isn'' @ [CHR 0x27] @ ''t available. Sorry about that.''))"
    by code_simp
  have s: "\<not> stop_requested gone_nav" "early gone_nav = gone_page"
    by (simp_all add: gone_nav_def)
  have a: "after_ready (example_tab_page\<lparr>after_ready := gone_page\<rparr>) = gone_page" by simp
  from unavailable_page_amended
         [where ps = gone_page and n = 0 and nv = gone_nav
            and s = "''This page isn'' @ [CHR 0x27] @ ''t available. Sorry about that.''"
            and pg = "example_tab_page\<lparr>after_ready := gone_page\<rparr>"
            and stop = never_stop and url_pattern = "''/watch''" and cap = 2
            and links_seen = "{}" and t = 0]
       c b p s a
  show ?thesis by simp
qed

section \<open>Properties of the resolver\<close>










end
